theory Spec2Isabelle
  imports Complex_Main "HOL-Library.Word" "HOL-Library.Log_Nat"
begin

unbundle bit_operations_syntax

section \<open>Data model of the hyperloglog package\<close>

text \<open>
  The package keeps its state behind pointers: a \<^verbatim>\<open>*Counter\<close> points to a struct, and the
  struct's \<^verbatim>\<open>regs\<close> and \<^verbatim>\<open>hbuf\<close> fields are slices over backing arrays that \<^verbatim>\<open>Add\<close> and
  \<^verbatim>\<open>Merge\<close> write in place. The model therefore has an explicit store: a list of counter
  structs (a \<^verbatim>\<open>*Counter\<close> is an index into it) and a list of backing arrays (a slice is an
  index into that one; every slice of the package spans its whole array). Allocation
  appends, so an index below the length is allocated and an index at or beyond it is
  dangling (a nil pointer, a nil slice). Allocation always succeeds: memory is not
  bounded, and Go's \<^verbatim>\<open>int\<close> is taken to be 64 bits wide, so that \<^verbatim>\<open>make\<close> with a length that
  came from a \<^verbatim>\<open>uint32\<close> cannot fail.

  Go's \<^verbatim>\<open>float64\<close> is modelled by \<^typ>\<open>real\<close>: arithmetic, \<^verbatim>\<open>math.Pow\<close>, \<^verbatim>\<open>math.Log10\<close>,
  \<^verbatim>\<open>math.Log2\<close> and \<^verbatim>\<open>math.Sqrt\<close> are exact, rounding, infinities and NaN are not modelled.
  \<^verbatim>\<open>Count\<close> and \<^verbatim>\<open>correction\<close>, whose result depends on all three, are translated a second
  time over \<^verbatim>\<open>float64\<close> with rounding, the infinities and NaN (\<open>Count_float64\<close>,
  \<open>correction_float64\<close>). Unsigned machine integers are words of their width.
\<close>

type_synonym byte = "8 word"
type_synonym uint32 = "32 word"
type_synonym uint64 = "64 word"
type_synonym ref = nat
type_synonym addr = nat

text \<open>
  The two error values of the package and the run-time panics its code can raise:
  \<^verbatim>\<open>panic(m)\<close> in \<^verbatim>\<open>alpha\<close>, an index out of range (index, length), a slice expression
  out of range (bound, capacity) and a nil pointer dereference.
\<close>

datatype error =
    errNumRegistersTooSmall
  | errMergeCounterMismatch
  | PanicAlpha uint64
  | PanicIndex nat nat
  | PanicSlice nat nat
  | PanicNilDeref

text \<open>
  \<^verbatim>\<open>type Counter struct { regs []uint8; m uint64; b uint64; alpha float64;
  hash func([]byte, []byte) int; hbuf []byte }\<close>.
  The \<^verbatim>\<open>hash\<close> field writes its first argument in place and returns an \<^verbatim>\<open>int\<close>: here it maps
  the old contents of the destination and the source to the new contents and the
  returned number, or to a panic.
\<close>

record Counter =
  regs :: addr
  m :: uint64
  b :: uint64
  alpha :: real
  hash :: "byte list \<Rightarrow> byte list \<Rightarrow> error + byte list \<times> int"
  hbuf :: addr

record store =
  counters :: "Counter list"
  slices :: "byte list list"

text \<open>
  What the Go standard library and the machine supply: \<^verbatim>\<open>sha256.Sum256\<close> (a parameter, the
  digest as a list of 32 bytes) and the byte order behind \<^verbatim>\<open>binary.NativeEndian\<close>.
\<close>

record platform =
  Sum256 :: "byte list \<Rightarrow> byte list"
  bigEndian :: bool

definition empty_store :: store where
  "empty_store = \<lparr>counters = [], slices = []\<rparr>"

definition counter_at :: "store \<Rightarrow> ref \<Rightarrow> Counter option" where
  "counter_at s p = (if p < length (counters s) then Some (counters s ! p) else None)"

definition slice_at :: "store \<Rightarrow> addr \<Rightarrow> byte list" where
  "slice_at s a = (if a < length (slices s) then slices s ! a else [])"

definition slice_put :: "store \<Rightarrow> addr \<Rightarrow> byte list \<Rightarrow> store" where
  "slice_put s a xs = s\<lparr>slices := (slices s)[a := xs]\<rparr>"

text \<open>\<^verbatim>\<open>x[i]\<close> as a read and as an assignment, with Go's bounds check.\<close>

definition slice_get :: "store \<Rightarrow> addr \<Rightarrow> nat \<Rightarrow> error + byte" where
  "slice_get s a i =
     (if i < length (slice_at s a) then Inr (slice_at s a ! i)
      else Inl (PanicIndex i (length (slice_at s a))))"

definition slice_set :: "store \<Rightarrow> addr \<Rightarrow> nat \<Rightarrow> byte \<Rightarrow> error + store" where
  "slice_set s a i x =
     (if i < length (slice_at s a) then Inr (slice_put s a ((slice_at s a)[i := x]))
      else Inl (PanicIndex i (length (slice_at s a))))"

text \<open>\<^verbatim>\<open>make([]uint8, n)\<close>: a fresh backing array of \<open>n\<close> zero bytes.\<close>

definition make :: "store \<Rightarrow> nat \<Rightarrow> addr \<times> store" where
  "make s n = (length (slices s), s\<lparr>slices := slices s @ [replicate n 0]\<rparr>)"

text \<open>\<^verbatim>\<open>&Counter{...}\<close>: a fresh struct.\<close>

definition new_struct :: "store \<Rightarrow> Counter \<Rightarrow> ref \<times> store" where
  "new_struct s c = (length (counters s), s\<lparr>counters := counters s @ [c]\<rparr>)"

section \<open>The functions of counter.go\<close>

definition minNumRegisters :: uint32 where
  "minNumRegisters = 16"

text \<open>
  \<^verbatim>\<open>func numZeroes(v uint64) (i uint8)\<close>: the loop runs \<open>i\<close> from 0 while \<open>i < 64\<close>, with
  \<^verbatim>\<open>mask = uint64(1<<63) >> i\<close>, and breaks at the first \<open>i\<close> with \<^verbatim>\<open>v&mask != 0\<close>.
\<close>

function numZeroes_loop :: "uint64 \<Rightarrow> byte \<Rightarrow> byte" where
  "numZeroes_loop v i =
     (if i < 64 then
        (if v AND drop_bit (unat i) (push_bit 63 1) \<noteq> 0 then i
         else numZeroes_loop v (i + 1))
      else i)"
  by pat_completeness auto
termination
proof (relation "measure (\<lambda>(v, i). 64 - unat i)")
  show "wf (measure (\<lambda>(v :: uint64, i :: byte). 64 - unat i))"
    by simp
next
  fix v :: uint64 and i :: byte
  assume "i < 64"
  then have "unat i < 64"
    by (simp add: word_less_nat_alt)
  then have "unat (i + 1) = unat i + 1"
    by (simp add: unat_word_ariths)
  with \<open>unat i < 64\<close> show "((v, i + 1), (v, i)) \<in> measure (\<lambda>(v, i). 64 - unat i)"
    by simp
qed

definition numZeroes :: "uint64 \<Rightarrow> byte" where
  "numZeroes v = numZeroes_loop v 0"

text \<open>
  \<^verbatim>\<open>func sha_256(dst []byte, src []byte) (n int)\<close>: \<^verbatim>\<open>x := sha256.Sum256(src)\<close>, then
  \<^verbatim>\<open>dst[n] = x[n]\<close> for every index \<open>n\<close> of \<open>dst\<close>; \<open>x\<close> is a \<^verbatim>\<open>[32]byte\<close>, so an index of 32
  panics. The named result \<open>n\<close> is the last index visited, 0 when \<open>dst\<close> is empty.
\<close>

definition sha_256 ::
  "(byte list \<Rightarrow> byte list) \<Rightarrow> byte list \<Rightarrow> byte list \<Rightarrow> error + byte list \<times> int" where
  "sha_256 digest dst src =
     (let x = digest src in
      if 32 < length dst then Inl (PanicIndex 32 32)
      else Inr (map (\<lambda>n. x ! n) [0..<length dst],
                if dst = [] then 0 else int (length dst) - 1))"

text \<open>
  \<^verbatim>\<open>func alpha(m uint64) float64\<close>, with its \<^verbatim>\<open>panic(m)\<close> as an error value. (The function is
  \<open>alpha_fn\<close> here: \<open>alpha\<close> is the field of the struct.)
\<close>

definition alpha_fn :: "uint64 \<Rightarrow> error + real" where
  "alpha_fn n =
     (if n < 16 then Inl (PanicAlpha n)
      else if n \<le> 32 then Inr 0.673
      else if n \<le> 64 then Inr 0.697
      else if n \<le> 128 then Inr 0.709
      else Inr (0.7213 / (1 + (1.079 / real (unat n)))))"

text \<open>
  \<^verbatim>\<open>uint64(math.Log2(float64(numRegisters)))\<close>: the conversion to \<^verbatim>\<open>uint64\<close> truncates, and
  the logarithm of a number from 16 on is positive.
\<close>

definition Log2_uint64 :: "uint32 \<Rightarrow> uint64" where
  "Log2_uint64 n = word_of_nat (nat \<lfloor>log 2 (real (unat n))\<rfloor>)"

text \<open>
  \<^verbatim>\<open>func NewCounter(numRegisters uint32) (*Counter, error)\<close>. The struct gets its fields
  \<open>m\<close>, \<open>b\<close> and \<open>hash\<close>, then \<open>alpha\<close>, \<open>regs\<close> and \<open>hbuf\<close>; the model allocates the two
  arrays in the order of the source and stores the finished struct. (The text of the
  error, "numRegisters must be greater than 16", is not modelled; the test is
  \<^verbatim>\<open>numRegisters < minNumRegisters\<close>.)
\<close>

definition NewCounter :: "platform \<Rightarrow> store \<Rightarrow> uint32 \<Rightarrow> error + ref \<times> store" where
  "NewCounter pf s numRegisters =
     (if numRegisters < minNumRegisters then Inl errNumRegistersTooSmall
      else
        let c_m = (ucast numRegisters :: uint64);
            c_b = Log2_uint64 numRegisters
        in (case alpha_fn c_m of
              Inl e \<Rightarrow> Inl e
            | Inr a \<Rightarrow>
                let (r, s1) = make s (unat c_m);
                    (h, s2) = make s1 8
                in Inr (new_struct s2
                     \<lparr>regs = r, m = c_m, b = c_b, alpha = a,
                      hash = sha_256 (Sum256 pf), hbuf = h\<rparr>)))"

text \<open>
  \<^verbatim>\<open>binary.NativeEndian.Uint64\<close>: the first eight bytes as a 64-bit number, least
  significant byte first on a little-endian machine, most significant first otherwise.
\<close>

definition Uint64 :: "platform \<Rightarrow> byte list \<Rightarrow> uint64" where
  "Uint64 pf bs =
     (if bigEndian pf
      then foldl (\<lambda>acc x. push_bit 8 acc OR ucast x) 0 (take 8 bs)
      else foldr (\<lambda>x acc. ucast x OR push_bit 8 acc) (take 8 bs) 0)"

text \<open>
  \<^verbatim>\<open>func (c *Counter) Add(in []byte)\<close>. The register index is
  \<^verbatim>\<open>v & ((1 << c.b) - 1)\<close> and the rank is \<^verbatim>\<open>numZeroes(v)+1\<close>, both named here because
  the properties below speak of them.
\<close>

definition index_of :: "Counter \<Rightarrow> uint64 \<Rightarrow> uint64" where
  "index_of c v = v AND (push_bit (unat (b c)) 1 - 1)"

definition rank_of :: "uint64 \<Rightarrow> byte" where
  "rank_of v = numZeroes v + 1"

definition Add :: "platform \<Rightarrow> store \<Rightarrow> ref \<Rightarrow> byte list \<Rightarrow> error + store" where
  "Add pf s p inp =
     (case counter_at s p of
        None \<Rightarrow> Inl PanicNilDeref
      | Some c \<Rightarrow>
          (case hash c (slice_at s (hbuf c)) inp of
             Inl e \<Rightarrow> Inl e
           | Inr (dst, n) \<Rightarrow>
               let s1 = slice_put s (hbuf c) dst in
               if length (slice_at s1 (hbuf c)) < 8
               then Inl (PanicSlice 8 (length (slice_at s1 (hbuf c))))
               else
                 let v = Uint64 pf (take 8 (slice_at s1 (hbuf c)));
                     i = unat (index_of c v)
                 in (case slice_get s1 (regs c) i of
                       Inl e \<Rightarrow> Inl e
                     | Inr r \<Rightarrow> slice_set s1 (regs c) i (max r (rank_of v)))))"

text \<open>
  \<^verbatim>\<open>func (c *Counter) correction(e float64) float64\<close> in exact arithmetic: the count \<open>v\<close> of
  zero registers is accumulated by a loop over \<^verbatim>\<open>c.regs\<close>. This is the function of the
  source without rounding, and only for \<open>e < 2^32\<close>: from \<open>e = 2^32\<close> on, Go's
  \<^verbatim>\<open>math.Log10\<close> gets an argument that is not positive and returns an infinity or NaN,
  which \<^typ>\<open>real\<close> does not have, and the value of this definition there is not the
  code's. \<open>correction_float64\<close> below is the function with rounding and on every
  \<^verbatim>\<open>float64\<close>; the two agree on a unit that does not round while the raw estimate is below
  \<open>2^32\<close> (\<open>Count_float64_exact\<close>).
\<close>

definition correction :: "store \<Rightarrow> Counter \<Rightarrow> real \<Rightarrow> real" where
  "correction s c e =
     (if e < (2 / 5) * real (unat (m c)) then
        (let v = foldl (\<lambda>v reg. if reg = 0 then v + 1 else v) (0 :: real)
                   (slice_at s (regs c))
         in if v \<noteq> 0 then real (unat (m c)) * log 10 (real (unat (m c)) / v) else e)
      else if e > (1 / 30) * 2 ^ 32 then - (2 ^ 32) * log 10 (1 - (e / 2 ^ 32))
      else e)"

text \<open>
  \<^verbatim>\<open>func (c *Counter) Count() float64\<close>: \<open>z\<close> accumulates \<^verbatim>\<open>math.Pow(2, -float64(reg))\<close> over
  the registers, \<^verbatim>\<open>c.m*c.m\<close> is a \<^verbatim>\<open>uint64\<close> product. Count writes nothing, so it returns
  a number and no store. (With no register at all Go divides by a float zero; HOL's
  \<open>1 / 0\<close> is \<open>0\<close>. A counter of the package has at least 16 registers.)
\<close>

definition Count :: "store \<Rightarrow> ref \<Rightarrow> error + real" where
  "Count s p =
     (case counter_at s p of
        None \<Rightarrow> Inl PanicNilDeref
      | Some c \<Rightarrow>
          let z = foldl (\<lambda>z reg. z + 2 powr (- real (unat reg))) 0 (slice_at s (regs c));
              z' = 1 / z;
              e = alpha c * real (unat (m c * m c)) * z'
          in Inr (correction s c e))"

text \<open>
  \<^verbatim>\<open>func (c *Counter) Merge(other *Counter) (*Counter, error)\<close>. The loop
  \<^verbatim>\<open>for i, reg := range c.regs { merged.regs[i] = max(reg, other.regs[i]) }\<close> visits the
  indices of \<^verbatim>\<open>c.regs\<close> in order, from \<open>i\<close> up to the length \<open>n\<close> taken at loop entry.
\<close>

function merge_loop :: "store \<Rightarrow> addr \<Rightarrow> addr \<Rightarrow> addr \<Rightarrow> nat \<Rightarrow> nat \<Rightarrow> error + store" where
  "merge_loop s c_regs other_regs merged_regs i n =
     (if i < n then
        (case slice_get s c_regs i of
           Inl e \<Rightarrow> Inl e
         | Inr reg \<Rightarrow>
             (case slice_get s other_regs i of
                Inl e \<Rightarrow> Inl e
              | Inr oreg \<Rightarrow>
                  (case slice_set s merged_regs i (max reg oreg) of
                     Inl e \<Rightarrow> Inl e
                   | Inr s' \<Rightarrow> merge_loop s' c_regs other_regs merged_regs (Suc i) n)))
      else Inr s)"
  by pat_completeness auto
termination
  by (relation "measure (\<lambda>(s, c_regs, other_regs, merged_regs, i, n). n - i)") auto

definition Merge :: "platform \<Rightarrow> store \<Rightarrow> ref \<Rightarrow> ref \<Rightarrow> error + ref \<times> store" where
  "Merge pf s p q =
     (case counter_at s p of
        None \<Rightarrow> Inl PanicNilDeref
      | Some c \<Rightarrow>
          (case counter_at s q of
             None \<Rightarrow> Inl PanicNilDeref
           | Some other \<Rightarrow>
               if m other \<noteq> m c then Inl errMergeCounterMismatch
               else
                 (case NewCounter pf s (ucast (m c)) of
                    Inl err \<Rightarrow> Inl err
                  | Inr (merged, s1) \<Rightarrow>
                      (case merge_loop s1 (regs c) (regs other)
                              (regs (counters s1 ! merged)) 0 (length (slice_at s1 (regs c))) of
                         Inl e \<Rightarrow> Inl e
                       | Inr s2 \<Rightarrow> Inr (merged, s2)))))"

text \<open>\<^verbatim>\<open>func (c *Counter) Error() float64\<close>.\<close>

definition Error :: "store \<Rightarrow> ref \<Rightarrow> error + real" where
  "Error s p =
     (case counter_at s p of
        None \<Rightarrow> Inl PanicNilDeref
      | Some c \<Rightarrow> Inr (1.04 * sqrt (real (unat (m c)))))"

section \<open>The invariant of construction\<close>

text \<open>
  What \<^verbatim>\<open>NewCounter\<close> establishes of a sketch and every operation of the package keeps (both
  are proved below, \<open>reachable_valid\<close>): the register count is at least 16 and came from a
  \<^verbatim>\<open>uint32\<close>, \<open>b\<close> and \<open>alpha\<close> are the values computed from \<open>m\<close>, the hash function is
  \<^verbatim>\<open>sha_256\<close>, and the sketch has its own allocated arrays, \<open>m\<close> registers and 8 bytes of
  scratch buffer. The theorems about "a validly constructed sketch" assume this.
\<close>

definition valid :: "platform \<Rightarrow> store \<Rightarrow> ref \<Rightarrow> bool" where
  "valid pf s p =
     (case counter_at s p of
        None \<Rightarrow> False
      | Some c \<Rightarrow>
          16 \<le> unat (m c) \<and> unat (m c) < 2 ^ 32 \<and>
          b c = Log2_uint64 (ucast (m c)) \<and>
          alpha_fn (m c) = Inr (alpha c) \<and>
          hash c = sha_256 (Sum256 pf) \<and>
          regs c < length (slices s) \<and> hbuf c < length (slices s) \<and>
          regs c \<noteq> hbuf c \<and>
          length (slice_at s (regs c)) = unat (m c) \<and>
          length (slice_at s (hbuf c)) = 8)"

section \<open>The specification's notions\<close>

text \<open>
  The number of leading zero bits of a 64-bit value, counted from the most significant
  bit down to the first set bit, as the specification words the rank; 64 when no bit is
  set.
\<close>

definition leading_zeros :: "uint64 \<Rightarrow> nat" where
  "leading_zeros v = length (takeWhile (\<lambda>j. \<not> bit v (63 - j)) [0..<64])"

text \<open>
  The bias constant as the specification gives it, a step function of the register
  count: 0.673 up to 32, 0.697 up to 64, 0.709 up to 128, \<open>0.7213 / (1 + 1.079/m)\<close> beyond.
\<close>

definition alpha_step :: "nat \<Rightarrow> real" where
  "alpha_step n =
     (if n \<le> 32 then 0.673 else if n \<le> 64 then 0.697 else if n \<le> 128 then 0.709
      else 0.7213 / (1 + 1.079 / real n))"

text \<open>The contents of the register array of the sketch at \<open>p\<close>.\<close>

definition registers :: "store \<Rightarrow> ref \<Rightarrow> byte list" where
  "registers s p = (case counter_at s p of None \<Rightarrow> [] | Some c \<Rightarrow> slice_at s (regs c))"

text \<open>
  The store \<open>s'\<close> holds every struct and every array of \<open>s\<close>, unchanged, and possibly
  new ones after them.
\<close>

definition extends :: "store \<Rightarrow> store \<Rightarrow> bool" where
  "extends s s' =
     (length (counters s) \<le> length (counters s') \<and>
      take (length (counters s)) (counters s') = counters s \<and>
      length (slices s) \<le> length (slices s') \<and>
      take (length (slices s)) (slices s') = slices s)"

text \<open>
  The estimate as the specification describes it, from \<open>alpha\<close>, \<open>m\<close> and the registers:
  the raw estimate \<open>E\<close>, the number \<open>V\<close> of zero registers, and the three cases in the
  order of the text.
\<close>

definition Count_spec :: "real \<Rightarrow> nat \<Rightarrow> byte list \<Rightarrow> real" where
  "Count_spec a n rs =
     (let E = a * (real n)\<^sup>2 * (1 / (\<Sum>reg\<leftarrow>rs. 2 powr (- real (unat reg))));
          V = length (filter (\<lambda>reg. reg = 0) rs)
      in if E < (2 / 5) * real n \<and> V \<noteq> 0 then real n * log 10 (real n / real V)
         else if E > (1 / 30) * 2 ^ 32 then - (2 ^ 32) * log 10 (1 - E / 2 ^ 32)
         else E)"

section \<open>Concrete inputs\<close>

text \<open>
  A little-endian machine with a stand-in digest (the input padded with zeros to 32
  bytes), so that a chosen eight-byte element gives a chosen hash value. It serves to
  evaluate the functions at concrete inputs; every theorem below holds for all digest
  functions and both byte orders.
\<close>

definition test_platform :: platform where
  "test_platform = \<lparr>Sum256 = (\<lambda>src. take 32 (src @ replicate 32 0)), bigEndian = False\<rparr>"

text \<open>The stores after \<^verbatim>\<open>NewCounter(16)\<close> and after \<^verbatim>\<open>NewCounter(20)\<close> on the empty store.\<close>

definition store_of :: "error + ref \<times> store \<Rightarrow> store" where
  "store_of r = (case r of Inl e \<Rightarrow> empty_store | Inr (p, s) \<Rightarrow> s)"

definition fresh16 :: store where
  "fresh16 = store_of (NewCounter test_platform empty_store 16)"

definition fresh20 :: store where
  "fresh20 = store_of (NewCounter test_platform empty_store 20)"

text \<open>Two allocated sketches with the same register count.\<close>

definition compatible :: "store \<Rightarrow> ref \<Rightarrow> ref \<Rightarrow> bool" where
  "compatible s p q =
     (case counter_at s p of
        None \<Rightarrow> False
      | Some c \<Rightarrow> (case counter_at s q of None \<Rightarrow> False | Some d \<Rightarrow> m c = m d))"

section \<open>Client programs\<close>

text \<open>
  A client of the package makes a sequence of calls. A returned error
  (\<^verbatim>\<open>errNumRegistersTooSmall\<close>, \<^verbatim>\<open>errMergeCounterMismatch\<close>) leaves the store as it was and
  the client goes on; a panic ends the run. The results of \<^verbatim>\<open>Count\<close> and \<^verbatim>\<open>Error\<close> are
  dropped; both only read the store.
\<close>

datatype call =
    CallNew uint32
  | CallAdd ref "byte list"
  | CallCount ref
  | CallMerge ref ref
  | CallError ref

definition recover :: "store \<Rightarrow> error \<Rightarrow> error + store" where
  "recover s e =
     (if e = errNumRegistersTooSmall \<or> e = errMergeCounterMismatch then Inr s else Inl e)"

definition step :: "platform \<Rightarrow> store \<Rightarrow> call \<Rightarrow> error + store" where
  "step pf s k =
     (case k of
        CallNew n \<Rightarrow>
          (case NewCounter pf s n of Inl e \<Rightarrow> recover s e | Inr (p, s') \<Rightarrow> Inr s')
      | CallAdd p x \<Rightarrow> Add pf s p x
      | CallCount p \<Rightarrow> (case Count s p of Inl e \<Rightarrow> Inl e | Inr x \<Rightarrow> Inr s)
      | CallMerge p q \<Rightarrow>
          (case Merge pf s p q of Inl e \<Rightarrow> recover s e | Inr (r, s') \<Rightarrow> Inr s')
      | CallError p \<Rightarrow> (case Error s p of Inl e \<Rightarrow> Inl e | Inr x \<Rightarrow> Inr s))"

fun run :: "platform \<Rightarrow> store \<Rightarrow> call list \<Rightarrow> error + store" where
  "run pf s [] = Inr s"
| "run pf s (k # ks) = (case step pf s k of Inl e \<Rightarrow> Inl e | Inr s' \<Rightarrow> run pf s' ks)"

text \<open>
  Three sketches of 16 registers, and four elements added to them: hash values
  \<open>0x0100000000000035\<close> (index 5, rank 8) to the first, \<open>0x1000000000000035\<close> (index 5, rank
  4) and \<open>0x8000000000000002\<close> (index 2, rank 1) to the second, \<open>0x2000000000000007\<close> (index
  7, rank 3) to the third.
\<close>

definition demo_calls :: "call list" where
  "demo_calls =
     [CallNew 16, CallNew 16, CallNew 16,
      CallAdd 0 [0x35, 0, 0, 0, 0, 0, 0, 0x01],
      CallAdd 1 [0x35, 0, 0, 0, 0, 0, 0, 0x10],
      CallAdd 1 [0x02, 0, 0, 0, 0, 0, 0, 0x80],
      CallAdd 2 [0x07, 0, 0, 0, 0, 0, 0, 0x20]]"

definition demo :: store where
  "demo = (case run test_platform empty_store demo_calls of Inl e \<Rightarrow> empty_store | Inr s \<Rightarrow> s)"

definition demo_counter :: "addr \<Rightarrow> Counter" where
  "demo_counter a = \<lparr>regs = a, m = 16, b = 4, alpha = 0.673,
     hash = sha_256 (Sum256 test_platform), hbuf = Suc a\<rparr>"

text \<open>A call of \<^verbatim>\<open>Add\<close> or of \<^verbatim>\<open>Count\<close> on the sketch \<open>p\<close>.\<close>

fun on_sketch :: "ref \<Rightarrow> call \<Rightarrow> bool" where
  "on_sketch p (CallAdd q x) = (q = p)"
| "on_sketch p (CallCount q) = (q = p)"
| "on_sketch p (CallNew n) = False"
| "on_sketch p (CallMerge q r) = False"
| "on_sketch p (CallError q) = False"

text \<open>Every struct of \<open>s\<close> is in \<open>s'\<close>, unchanged.\<close>

definition keeps_counters :: "store \<Rightarrow> store \<Rightarrow> bool" where
  "keeps_counters s s' =
     (length (counters s) \<le> length (counters s') \<and>
      take (length (counters s)) (counters s') = counters s)"

text \<open>
  No two sketches share an array, and every sketch of the store satisfies the invariant
  of construction.
\<close>

definition separate :: "store \<Rightarrow> bool" where
  "separate s =
     (\<forall>p < length (counters s). \<forall>q < length (counters s). p \<noteq> q \<longrightarrow>
        regs (counters s ! p) \<noteq> regs (counters s ! q) \<and>
        regs (counters s ! p) \<noteq> hbuf (counters s ! q) \<and>
        hbuf (counters s ! p) \<noteq> hbuf (counters s ! q))"

definition wf_store :: "platform \<Rightarrow> store \<Rightarrow> bool" where
  "wf_store pf s = ((\<forall>p < length (counters s). valid pf s p) \<and> separate s)"

section \<open>Count in float64 arithmetic\<close>

text \<open>
  The second translation of \<^verbatim>\<open>Count\<close> and \<^verbatim>\<open>correction\<close>, over \<^verbatim>\<open>float64\<close> itself. A
  \<^verbatim>\<open>float64\<close> is a real number, one of the two infinities, or NaN. The two zeros of
  IEEE 754 are one value here, \<open>Num 0\<close>; their sign shows only in a division by zero, and
  the three divisors of the code (the sum \<open>z\<close> of powers of two, the count \<open>v\<close>, the constant
  \<open>2^32\<close>) are never the negative zero, so a zero divisor is taken as the positive one.
\<close>

datatype float64 = Num real | PosInf | NegInf | NaN

text \<open>
  What the machine and Go's \<^verbatim>\<open>math\<close> package supply: \<open>rnd\<close> maps the exact result of an
  operation to the \<^verbatim>\<open>float64\<close> that the operation returns (a number, or an infinity on
  overflow), and \<^verbatim>\<open>math.Pow\<close> and \<^verbatim>\<open>math.Log10\<close> are functions on \<^verbatim>\<open>float64\<close>.
\<close>

datatype fpu = Fpu (rnd: "real \<Rightarrow> float64")
  (math_Pow: "float64 \<Rightarrow> float64 \<Rightarrow> float64")
  (math_Log10: "float64 \<Rightarrow> float64")

text \<open>
  The operators \<^verbatim>\<open>-x\<close>, \<^verbatim>\<open>x + y\<close>, \<^verbatim>\<open>x - y\<close>, \<^verbatim>\<open>x * y\<close>, \<^verbatim>\<open>x / y\<close>, \<^verbatim>\<open>x < y\<close> and \<^verbatim>\<open>x != y\<close> of Go on
  \<^verbatim>\<open>float64\<close>, with the special values of IEEE 754: NaN propagates, \<open>\<infinity> - \<infinity>\<close>, \<open>0 * \<infinity>\<close>,
  \<open>\<infinity> / \<infinity>\<close> and \<open>0 / 0\<close> are NaN, a nonzero number divided by zero is an infinity, every
  comparison with NaN is false and NaN differs from everything. On two numbers the
  result is the exact one, rounded.
\<close>

fun fneg :: "float64 \<Rightarrow> float64" where
  "fneg (Num x) = Num (- x)"
| "fneg PosInf = NegInf"
| "fneg NegInf = PosInf"
| "fneg NaN = NaN"

fun fadd :: "fpu \<Rightarrow> float64 \<Rightarrow> float64 \<Rightarrow> float64" where
  "fadd fp NaN y = NaN"
| "fadd fp x NaN = NaN"
| "fadd fp PosInf NegInf = NaN"
| "fadd fp NegInf PosInf = NaN"
| "fadd fp PosInf y = PosInf"
| "fadd fp NegInf y = NegInf"
| "fadd fp x PosInf = PosInf"
| "fadd fp x NegInf = NegInf"
| "fadd fp (Num x) (Num y) = rnd fp (x + y)"

definition fsub :: "fpu \<Rightarrow> float64 \<Rightarrow> float64 \<Rightarrow> float64" where
  "fsub fp x y = fadd fp x (fneg y)"

fun inf_of_sign :: "bool \<Rightarrow> float64" where
  "inf_of_sign True = NegInf"
| "inf_of_sign False = PosInf"

fun fmul :: "fpu \<Rightarrow> float64 \<Rightarrow> float64 \<Rightarrow> float64" where
  "fmul fp NaN y = NaN"
| "fmul fp x NaN = NaN"
| "fmul fp PosInf PosInf = PosInf"
| "fmul fp PosInf NegInf = NegInf"
| "fmul fp NegInf PosInf = NegInf"
| "fmul fp NegInf NegInf = PosInf"
| "fmul fp PosInf (Num y) = (if y = 0 then NaN else inf_of_sign (y < 0))"
| "fmul fp NegInf (Num y) = (if y = 0 then NaN else inf_of_sign (0 < y))"
| "fmul fp (Num x) PosInf = (if x = 0 then NaN else inf_of_sign (x < 0))"
| "fmul fp (Num x) NegInf = (if x = 0 then NaN else inf_of_sign (0 < x))"
| "fmul fp (Num x) (Num y) = rnd fp (x * y)"

fun fdiv :: "fpu \<Rightarrow> float64 \<Rightarrow> float64 \<Rightarrow> float64" where
  "fdiv fp NaN y = NaN"
| "fdiv fp x NaN = NaN"
| "fdiv fp PosInf (Num y) = inf_of_sign (y < 0)"
| "fdiv fp NegInf (Num y) = inf_of_sign (0 \<le> y)"
| "fdiv fp PosInf y = NaN"
| "fdiv fp NegInf y = NaN"
| "fdiv fp (Num x) PosInf = Num 0"
| "fdiv fp (Num x) NegInf = Num 0"
| "fdiv fp (Num x) (Num y) =
     (if y = 0 then (if x = 0 then NaN else inf_of_sign (x < 0)) else rnd fp (x / y))"

fun flt :: "float64 \<Rightarrow> float64 \<Rightarrow> bool" where
  "flt NaN y = False"
| "flt x NaN = False"
| "flt (Num x) (Num y) = (x < y)"
| "flt PosInf y = False"
| "flt x NegInf = False"
| "flt NegInf y = True"
| "flt x PosInf = True"

fun fne :: "float64 \<Rightarrow> float64 \<Rightarrow> bool" where
  "fne NaN y = True"
| "fne x NaN = True"
| "fne x y = (x \<noteq> y)"

text \<open>
  The conversions \<^verbatim>\<open>float64(c.m)\<close>, \<^verbatim>\<open>float64(c.m*c.m)\<close> of a \<^verbatim>\<open>uint64\<close>, which round, and
  \<^verbatim>\<open>float64(reg)\<close> of a \<^verbatim>\<open>uint8\<close>, which is exact.
\<close>

definition of_uint64 :: "fpu \<Rightarrow> uint64 \<Rightarrow> float64" where
  "of_uint64 fp w = rnd fp (real (unat w))"

definition of_uint8 :: "byte \<Rightarrow> float64" where
  "of_uint8 w = Num (real (unat w))"

text \<open>
  \<^verbatim>\<open>func (c *Counter) correction(e float64) float64\<close>. The constants \<^verbatim>\<open>(2.0/5)\<close> and
  \<^verbatim>\<open>(1.0/30)*(1<<32)\<close> are constant expressions: Go evaluates them exactly and rounds the
  value once, where it meets a \<^verbatim>\<open>float64\<close>. \<^verbatim>\<open>-(1 << 32)\<close>, \<^verbatim>\<open>(1<<32)\<close> and \<^verbatim>\<open>1\<close> are
  \<^verbatim>\<open>float64\<close> values as they stand. \<open>v\<close> starts at zero and \<^verbatim>\<open>v += 1\<close> is a \<^verbatim>\<open>float64\<close> addition.
\<close>

definition correction_float64 :: "fpu \<Rightarrow> store \<Rightarrow> Counter \<Rightarrow> float64 \<Rightarrow> float64" where
  "correction_float64 fp s c e =
     (if flt e (fmul fp (rnd fp (2 / 5)) (of_uint64 fp (m c))) then
        (let v = foldl (\<lambda>v reg. if reg = 0 then fadd fp v (Num 1) else v) (Num 0)
                   (slice_at s (regs c))
         in if fne v (Num 0)
            then fmul fp (of_uint64 fp (m c)) (math_Log10 fp (fdiv fp (of_uint64 fp (m c)) v))
            else e)
      else if flt (rnd fp ((1 / 30) * 2 ^ 32)) e
      then fmul fp (Num (- (2 ^ 32))) (math_Log10 fp (fsub fp (Num 1) (fdiv fp e (Num (2 ^ 32)))))
      else e)"

text \<open>
  \<^verbatim>\<open>func (c *Counter) Count() float64\<close>. \<^verbatim>\<open>c.m*c.m\<close> is the \<^verbatim>\<open>uint64\<close> product, which wraps,
  and \<^verbatim>\<open>c.alpha * float64(c.m*c.m) * z\<close> is two multiplications, from the left. The field
  \<^verbatim>\<open>alpha\<close> of the struct is a number (\<^verbatim>\<open>alpha\<close> returns a finite value or panics), so it is read as \<open>Num (alpha c)\<close>.
\<close>

definition Count_float64 :: "fpu \<Rightarrow> store \<Rightarrow> ref \<Rightarrow> error + float64" where
  "Count_float64 fp s p =
     (case counter_at s p of
        None \<Rightarrow> Inl PanicNilDeref
      | Some c \<Rightarrow>
          let z = foldl (\<lambda>z reg. fadd fp z (math_Pow fp (Num 2) (fneg (of_uint8 reg)))) (Num 0)
                    (slice_at s (regs c));
              z' = fdiv fp (Num 1) z;
              e = fmul fp (fmul fp (Num (alpha c)) (of_uint64 fp (m c * m c))) z'
          in Inr (correction_float64 fp s c e))"

text \<open>
  What is assumed of the machine: rounding to nearest in binary64. Between the smallest
  normal number \<open>2^-1022\<close> and \<open>2^1023\<close> the rounded value is a number within the relative
  error \<open>2^-53\<close> of the exact one; rounding is monotone; and a natural number up to \<open>2^53\<close>
  is a \<^verbatim>\<open>float64\<close>, so rounding leaves it as it is.
\<close>

definition min_normal :: real where
  "min_normal = 2 powr (- 1022)"

definition max_range :: real where
  "max_range = 2 ^ 1023"

definition ieee_rounding :: "(real \<Rightarrow> float64) \<Rightarrow> bool" where
  "ieee_rounding r =
     ((\<forall>x. min_normal \<le> \<bar>x\<bar> \<and> \<bar>x\<bar> \<le> max_range \<longrightarrow>
           (\<exists>y. r x = Num y \<and> \<bar>y - x\<bar> \<le> \<bar>x\<bar> / 2 ^ 53)) \<and>
      (\<forall>x y x' y'. x \<le> y \<and> r x = Num x' \<and> r y = Num y' \<longrightarrow> x' \<le> y') \<and>
      (\<forall>k. k \<le> 2 ^ 53 \<longrightarrow> r (real k) = Num (real k)))"

text \<open>
  What is assumed of \<^verbatim>\<open>math.Pow\<close>: \<^verbatim>\<open>math.Pow(2, -k)\<close> is \<open>2^-k\<close> for a register value \<open>k\<close>. (Go's
  \<^verbatim>\<open>pow\<close> computes an integer power by repeated squaring of the mantissa \<open>1/2\<close> and addition of
  exponents, which is exact for a power of two.) Nothing is assumed of \<^verbatim>\<open>math.Log10\<close>.
\<close>

definition pow2_exact :: "fpu \<Rightarrow> bool" where
  "pow2_exact fp =
     (\<forall>k. k \<le> 255 \<longrightarrow> math_Pow fp (Num 2) (Num (- real k)) = Num (2 powr (- real k)))"

text \<open>
  The estimate as the specification words it, in \<^verbatim>\<open>float64\<close> arithmetic, from \<open>alpha\<close>, the
  register count \<open>n\<close> and the registers: the raw estimate \<open>E\<close>, the number \<open>V\<close> of zero
  registers, and one of three results in this order.
\<close>

definition Count_claimed :: "fpu \<Rightarrow> real \<Rightarrow> nat \<Rightarrow> byte list \<Rightarrow> float64" where
  "Count_claimed fp a n rs =
     (let fm = Num (real n);
          S = foldl (\<lambda>z reg. fadd fp z (math_Pow fp (Num 2) (Num (- real (unat reg))))) (Num 0) rs;
          E = fmul fp (fmul fp (Num a) (rnd fp ((real n)\<^sup>2))) (fdiv fp (Num 1) S);
          V = length (filter (\<lambda>reg. reg = 0) rs)
      in if flt E (fmul fp (rnd fp (2 / 5)) fm) \<and> V \<noteq> 0
         then fmul fp fm (math_Log10 fp (fdiv fp fm (Num (real V))))
         else if flt (rnd fp ((1 / 30) * 2 ^ 32)) E
         then fmul fp (Num (- (2 ^ 32))) (math_Log10 fp (fsub fp (Num 1) (fdiv fp E (Num (2 ^ 32)))))
         else E)"

text \<open>
  Two units on which the \<^verbatim>\<open>float64\<close> functions can be evaluated. Both have the
  mathematical power, for a positive base and a number as exponent (\<^verbatim>\<open>Count\<close> calls
  \<^verbatim>\<open>math.Pow\<close> with the base 2 and the negated value of a register; on other arguments NaN
  stands for the special cases of \<^verbatim>\<open>math.Pow\<close>, which are not modelled), and the
  mathematical logarithm with the special values of \<^verbatim>\<open>math.Log10\<close>: \<open>-\<infinity>\<close> at zero, NaN below
  zero and at NaN, \<open>+\<infinity>\<close> at \<open>+\<infinity>\<close>. The first unit does not round.
\<close>

fun exact_Pow :: "float64 \<Rightarrow> float64 \<Rightarrow> float64" where
  "exact_Pow (Num x) (Num y) = (if 0 < x then Num (x powr y) else NaN)"
| "exact_Pow x y = NaN"

fun exact_Log10 :: "float64 \<Rightarrow> float64" where
  "exact_Log10 (Num x) = (if 0 < x then Num (log 10 x) else if x = 0 then NegInf else NaN)"
| "exact_Log10 PosInf = PosInf"
| "exact_Log10 NegInf = NaN"
| "exact_Log10 NaN = NaN"

definition exact_fpu :: fpu where
  "exact_fpu = Fpu Num exact_Pow exact_Log10"

text \<open>
  The second unit rounds to nearest, ties to even, in binary64. \<open>binade x\<close> is the
  exponent of the power of two at or below \<open>\<bar>x\<bar>\<close>, and \<open>-1022\<close> for the subnormal numbers
  and zero; the numbers of the format around \<open>x\<close> are the multiples of \<open>ulp x\<close> (53 binary
  digits); \<open>nearest x\<close> is the nearest multiple, the even one of two that are equally near;
  from the magnitude \<open>2^1024\<close> on the rounded number is out of the format and the result is
  an infinity. Power and logarithm of this unit are the mathematical ones, rounded.
\<close>

definition round_even :: "real \<Rightarrow> int" where
  "round_even q =
     (let f = \<lfloor>q\<rfloor>
      in if q - of_int f < 1 / 2 then f
         else if 1 / 2 < q - of_int f then f + 1
         else if even f then f else f + 1)"

definition binade :: "real \<Rightarrow> int" where
  "binade x = max \<lfloor>log 2 \<bar>x\<bar>\<rfloor> (- 1022)"

definition ulp :: "real \<Rightarrow> real" where
  "ulp x = 2 powr (of_int (binade x - 52))"

definition nearest :: "real \<Rightarrow> real" where
  "nearest x = of_int (round_even (x / ulp x)) * ulp x"

definition round_float64 :: "real \<Rightarrow> float64" where
  "round_float64 x =
     (if 2 ^ 1024 \<le> \<bar>nearest x\<bar> then (if x < 0 then NegInf else PosInf) else Num (nearest x))"

definition nearest_fpu :: fpu where
  "nearest_fpu =
     Fpu round_float64
       (\<lambda>x y. case exact_Pow x y of Num r \<Rightarrow> round_float64 r | v \<Rightarrow> v)
       (\<lambda>x. case exact_Log10 x of Num r \<Rightarrow> round_float64 r | v \<Rightarrow> v)"

text \<open>
  One sketch of 16 registers and sixteen elements, one for each register, with the hash
  values \<open>0x0000000800000000 + i\<close> (index \<open>i\<close>, 28 leading zeros, rank 29).
\<close>

definition saturating_calls :: "call list" where
  "saturating_calls =
     CallNew 16 # map (\<lambda>i. CallAdd 0 [i, 0, 0, 0, 8, 0, 0, 0])
       [0, 1, 2, 3, 4, 5, 6, 7, 8, 9, 10, 11, 12, 13, 14, 15]"

definition saturated :: store where
  "saturated =
     (case run test_platform empty_store saturating_calls of Inl e \<Rightarrow> empty_store | Inr s \<Rightarrow> s)"

section \<open>Properties of the functions\<close>

subsection \<open>The number of index bits\<close>

text \<open>
  For a register count \<open>n\<close> from a \<^verbatim>\<open>uint32\<close>, \<open>b\<close> is the floor of the binary logarithm:
  \<open>2 ^ b \<le> n < 2 ^ (b + 1)\<close>, and \<open>b < 32\<close>. (In Go the logarithm is a \<^verbatim>\<open>float64\<close>;
  \<^verbatim>\<open>math.Log2\<close> is exact at powers of two, and between two powers of two below \<open>2 ^ 32\<close>
  its result stays strictly between the two exponents, so the truncation is this floor.)
\<close>

declare of_nat_unat [simp del]

lemma Log2_uint64_floorlog: "0 < n \<Longrightarrow> Log2_uint64 n = word_of_nat (floorlog 2 (unat n) - 1)"
  by (simp add: Log2_uint64_def floorlog_def unat_gt_0)

lemma floor_log2_bounds:
  fixes n :: nat
  assumes "0 < n"
  shows "2 ^ nat \<lfloor>log 2 (real n)\<rfloor> \<le> n" and "n < 2 ^ (nat \<lfloor>log 2 (real n)\<rfloor> + 1)"
proof -
  have fl: "floorlog 2 n = nat \<lfloor>log 2 (real n)\<rfloor> + 1"
    using assms by (simp add: floorlog_def)
  from floorlog_bounds [of n 2] assms
  have "2 ^ (floorlog 2 n - 1) \<le> n \<and> n < 2 ^ floorlog 2 n" by simp
  then show "2 ^ nat \<lfloor>log 2 (real n)\<rfloor> \<le> n" and "n < 2 ^ (nat \<lfloor>log 2 (real n)\<rfloor> + 1)"
    by (simp_all add: fl)
qed

lemma floor_log2_less_32:
  fixes n :: nat
  assumes "0 < n" "n < 2 ^ 32"
  shows "nat \<lfloor>log 2 (real n)\<rfloor> < 32"
proof (rule ccontr)
  assume "\<not> nat \<lfloor>log 2 (real n)\<rfloor> < 32"
  then have "(2::nat) ^ 32 \<le> 2 ^ nat \<lfloor>log 2 (real n)\<rfloor>"
    by (intro power_increasing) auto
  with floor_log2_bounds(1) [OF assms(1)] assms(2) show False
    by linarith
qed

lemma unat_Log2_uint64:
  assumes "0 < n"
  shows "unat (Log2_uint64 n) = nat \<lfloor>log 2 (real (unat n))\<rfloor>"
proof -
  have "0 < unat n" using assms by (simp add: unat_gt_0)
  moreover have "unat n < 2 ^ 32"
    using unsigned_less [of n, where 'a = nat] by simp
  ultimately have "nat \<lfloor>log 2 (real (unat n))\<rfloor> < 32"
    by (rule floor_log2_less_32)
  then show ?thesis
    by (simp add: Log2_uint64_def unat_of_nat)
qed

lemma index_of_less: "unat (index_of c v) < 2 ^ unat (b c)"
proof -
  have "index_of c v = take_bit (unat (b c)) v"
    by (simp add: index_of_def take_bit_eq_mask mask_eq_exp_minus_1)
  then show ?thesis
    by (simp add: unsigned_take_bit_eq)
qed

subsection \<open>Leading zeros and the rank\<close>

lemma numZeroes_mask:
  assumes "n \<le> 63"
  shows "drop_bit n (push_bit 63 (1 :: uint64)) = 2 ^ (63 - n)"
proof -
  have "push_bit 63 (1 :: uint64) = 2 ^ 63"
    by (simp only: push_bit_of_1)
  moreover have "drop_bit n (2 ^ 63 :: uint64) = 2 ^ (63 - n)"
    using assms by (simp only: drop_bit_exp_eq) simp
  ultimately show ?thesis by (simp only:)
qed

lemma numZeroes_loop_takeWhile:
  "unat i \<le> 64 \<Longrightarrow>
   unat (numZeroes_loop v i) =
     unat i + length (takeWhile (\<lambda>j. \<not> bit v (63 - j)) [unat i..<64])"
proof (induction v i rule: numZeroes_loop.induct)
  case (1 v i)
  show ?case
  proof (cases "i < 64")
    case True
    then have lt: "unat i < 64"
      by (simp add: word_less_nat_alt)
    then have suc: "unat (i + 1) = Suc (unat i)"
      by (simp add: unat_word_ariths)
    have "drop_bit (unat i) (push_bit 63 (1 :: uint64)) = 2 ^ (63 - unat i)"
      using lt by (intro numZeroes_mask) simp
    then have test: "(v AND drop_bit (unat i) (push_bit 63 1) \<noteq> 0) = bit v (63 - unat i)"
      by (simp only: and_exp_eq_0_iff_not_bit) simp
    have upt: "[unat i..<64] = unat i # [Suc (unat i)..<64]"
      using lt by (simp add: upt_rec)
    show ?thesis
    proof (cases "bit v (63 - unat i)")
      case True
      with \<open>i < 64\<close> test have "numZeroes_loop v i = i"
        by (subst numZeroes_loop.simps) simp
      with True upt show ?thesis by simp
    next
      case False
      with \<open>i < 64\<close> test have step: "numZeroes_loop v i = numZeroes_loop v (i + 1)"
        by (subst numZeroes_loop.simps) simp
      from False test have "\<not> v AND drop_bit (unat i) (push_bit 63 1) \<noteq> 0"
        by simp
      with "1.IH" [OF \<open>i < 64\<close>] suc lt
      have "unat (numZeroes_loop v (i + 1)) =
              Suc (unat i) + length (takeWhile (\<lambda>j. \<not> bit v (63 - j)) [Suc (unat i)..<64])"
        by simp
      with step False upt show ?thesis by simp
    qed
  next
    case False
    then have "64 \<le> unat i"
      by (simp add: word_less_nat_alt)
    with "1.prems" have "unat i = 64" by simp
    moreover from False have "numZeroes_loop v i = i"
      by (subst numZeroes_loop.simps) simp
    ultimately show ?thesis by simp
  qed
qed

lemma leading_zeros_le: "leading_zeros v \<le> 64"
proof -
  have "length (takeWhile (\<lambda>j. \<not> bit v (63 - j)) [0..<64]) \<le> length [0..<64]"
    by (rule length_takeWhile_le)
  then show ?thesis by (simp add: leading_zeros_def)
qed

lemma unat_numZeroes: "unat (numZeroes v) = leading_zeros v"
  using numZeroes_loop_takeWhile [of 0 v] by (simp add: numZeroes_def leading_zeros_def)

lemma unat_rank_of: "unat (rank_of v) = leading_zeros v + 1"
proof -
  have "unat (numZeroes v) + 1 < 256"
    using leading_zeros_le [of v] by (simp add: unat_numZeroes)
  then show ?thesis
    by (simp add: rank_of_def unat_word_ariths unat_numZeroes)
qed

lemma takeWhile_True: "takeWhile (\<lambda>j. True) xs = xs"
  by (induction xs) simp_all

lemma leading_zeros_0: "leading_zeros 0 = 64"
  by (simp add: leading_zeros_def takeWhile_True)

lemma leading_zeros_bits:
  "(\<forall>j < leading_zeros v. \<not> bit v (63 - j)) \<and>
   (leading_zeros v < 64 \<longrightarrow> bit v (63 - leading_zeros v))"
proof -
  let ?P = "\<lambda>j. \<not> bit v (63 - j)"
  let ?k = "length (takeWhile ?P [0..<64])"
  have a: "\<forall>j < ?k. ?P j"
  proof (intro allI impI)
    fix j assume j: "j < ?k"
    then have "takeWhile ?P [0..<64] ! j \<in> set (takeWhile ?P [0..<64])"
      by (rule nth_mem)
    then have "?P (takeWhile ?P [0..<64] ! j)"
      by (rule set_takeWhileD [THEN conjunct2])
    moreover have "takeWhile ?P [0..<64] ! j = [0..<64] ! j"
      using j by (rule takeWhile_nth)
    moreover have "j < 64"
      using j length_takeWhile_le [of ?P "[0..<64]"] by simp
    ultimately show "?P j" by simp
  qed
  have b: "?k < 64 \<longrightarrow> bit v (63 - ?k)"
  proof
    assume "?k < 64"
    then have "?k < length [0..<64]" by simp
    then have "\<not> ?P ([0..<64] ! ?k)"
      by (rule nth_length_takeWhile)
    with \<open>?k < 64\<close> show "bit v (63 - ?k)" by simp
  qed
  from a b show ?thesis
    by (simp add: leading_zeros_def)
qed

subsection \<open>Stores, and what Add does to a valid sketch\<close>

lemma counters_slice_put [simp]: "counters (slice_put s a xs) = counters s"
  by (simp add: slice_put_def)

lemma counter_at_slice_put [simp]: "counter_at (slice_put s a xs) p = counter_at s p"
  by (simp add: counter_at_def)

lemma length_slices_slice_put [simp]: "length (slices (slice_put s a xs)) = length (slices s)"
  by (simp add: slice_put_def)

lemma slice_at_slice_put_same:
  "a < length (slices s) \<Longrightarrow> slice_at (slice_put s a xs) a = xs"
  by (simp add: slice_at_def slice_put_def)

lemma slice_at_slice_put_other:
  "a' \<noteq> a \<Longrightarrow> slice_at (slice_put s a xs) a' = slice_at s a'"
  by (simp add: slice_at_def slice_put_def)

lemma sha_256_8:
  "length dst = 8 \<Longrightarrow> sha_256 d dst src = Inr (map (\<lambda>n. d src ! n) [0..<8], 7)"
  by (auto simp add: sha_256_def Let_def)

lemma valid_unat_b:
  assumes "valid pf s p" and "counter_at s p = Some c"
  shows "unat (b c) = nat \<lfloor>log 2 (real (unat (m c)))\<rfloor>"
proof -
  from assms have m16: "16 \<le> unat (m c)" and m32: "unat (m c) < 2 ^ 32"
    and bc: "b c = Log2_uint64 (ucast (m c))"
    by (simp_all add: valid_def)
  have u: "unat (ucast (m c) :: uint32) = unat (m c)"
    using m32 by (simp add: unsigned_ucast_eq take_bit_nat_eq_self)
  with m16 have "(ucast (m c) :: uint32) \<noteq> 0"
    by auto
  then have "0 < (ucast (m c) :: uint32)"
    by (simp add: word_gt_0)
  then show ?thesis
    by (simp add: bc unat_Log2_uint64 u)
qed

lemma valid_index_bounds:
  assumes "valid pf s p" and "counter_at s p = Some c"
  shows "unat (index_of c v) \<le> 2 ^ unat (b c) - 1"
    and "2 ^ unat (b c) - 1 \<le> unat (m c) - 1"
    and "unat (index_of c v) < length (slice_at s (regs c))"
proof -
  from assms have m16: "16 \<le> unat (m c)"
    and len: "length (slice_at s (regs c)) = unat (m c)"
    by (simp_all add: valid_def)
  have pw: "2 ^ unat (b c) \<le> unat (m c)"
    using floor_log2_bounds(1) [of "unat (m c)"] m16
    by (simp add: valid_unat_b [OF assms])
  have lt: "unat (index_of c v) < 2 ^ unat (b c)"
    by (rule index_of_less)
  from lt show "unat (index_of c v) \<le> 2 ^ unat (b c) - 1" by simp
  from pw show "2 ^ unat (b c) - 1 \<le> unat (m c) - 1" by simp
  from lt pw len show "unat (index_of c v) < length (slice_at s (regs c))" by simp
qed

lemma Add_valid:
  assumes "valid pf s p" and "counter_at s p = Some c"
  shows "Add pf s p inp =
           (let dst = map (\<lambda>n. Sum256 pf inp ! n) [0..<8];
                v = Uint64 pf dst;
                i = unat (index_of c v);
                rs = slice_at s (regs c)
            in Inr (slice_put (slice_put s (hbuf c) dst) (regs c)
                      (rs[i := max (rs ! i) (rank_of v)])))"
proof -
  from assms have h: "hash c = sha_256 (Sum256 pf)"
    and hb: "hbuf c < length (slices s)" and ne: "regs c \<noteq> hbuf c"
    and hlen: "length (slice_at s (hbuf c)) = 8"
    by (simp_all add: valid_def)
  define dst where "dst = map (\<lambda>n. Sum256 pf inp ! n) [0..<8]"
  define s1 where "s1 = slice_put s (hbuf c) dst"
  define v where "v = Uint64 pf dst"
  have hs: "hash c (slice_at s (hbuf c)) inp = Inr (dst, 7)"
    by (simp add: h sha_256_8 [OF hlen] dst_def)
  have s1h: "slice_at s1 (hbuf c) = dst"
    by (simp add: s1_def slice_at_slice_put_same [OF hb])
  have s1r: "slice_at s1 (regs c) = slice_at s (regs c)"
    by (simp add: s1_def slice_at_slice_put_other [OF ne])
  have dlen: "length dst = 8"
    by (simp add: dst_def)
  have idx: "unat (index_of c v) < length (slice_at s (regs c))"
    by (rule valid_index_bounds(3) [OF assms])
  show ?thesis
    using idx
    by (simp add: Add_def assms(2) hs s1h s1r dlen slice_get_def slice_set_def Let_def
        flip: s1_def dst_def v_def)
qed

subsection \<open>Construction\<close>

lemma unat_ucast_up: "unat (ucast (n :: uint32) :: uint64) = unat n"
proof -
  have "unat n < 2 ^ 32"
    using unsigned_less [of n, where 'a = nat] by simp
  then have "unat n < 2 ^ 64"
    by simp
  then show ?thesis
    by (simp add: unsigned_ucast_eq take_bit_nat_eq_self)
qed

lemma alpha_fn_unat:
  "alpha_fn w = (if unat w < 16 then Inl (PanicAlpha w) else Inr (alpha_step (unat w)))"
  by (simp add: alpha_fn_def alpha_step_def word_less_nat_alt word_le_nat_alt)

lemma NewCounter_small:
  "n < 16 \<Longrightarrow> NewCounter pf s n = Inl errNumRegistersTooSmall"
  by (simp add: NewCounter_def minNumRegisters_def)

lemma NewCounter_ok:
  assumes "\<not> n < 16"
  shows "NewCounter pf s n =
           Inr (length (counters s),
                s\<lparr>slices := slices s @ [replicate (unat n) 0, replicate 8 0],
                  counters := counters s @
                    [\<lparr>regs = length (slices s), m = ucast n, b = Log2_uint64 n,
                      alpha = alpha_step (unat n), hash = sha_256 (Sum256 pf),
                      hbuf = Suc (length (slices s))\<rparr>]\<rparr>)"
proof -
  from assms have "\<not> unat n < 16"
    by (simp add: word_less_nat_alt)
  then have "alpha_fn (ucast n) = Inr (alpha_step (unat n))"
    by (simp add: alpha_fn_unat unat_ucast_up)
  with assms show ?thesis
    by (simp add: NewCounter_def minNumRegisters_def make_def new_struct_def unat_ucast_up)
qed

subsection \<open>The merge loop\<close>

declare merge_loop.simps [simp del]

declare numZeroes_loop.simps [simp del]

lemma slice_put_slice_put: "slice_put (slice_put s a xs) a ys = slice_put s a ys"
  by (simp add: slice_put_def)

lemma merge_loop_result:
  assumes "i \<le> n"
    and "n \<le> length (slice_at s cr)" and "n \<le> length (slice_at s orr)"
    and "n \<le> length (slice_at s mr)"
    and "mr \<noteq> cr" and "mr \<noteq> orr" and "mr < length (slices s)"
  shows "merge_loop s cr orr mr i n =
           Inr (slice_put s mr
                  (take i (slice_at s mr) @
                   map (\<lambda>j. max (slice_at s cr ! j) (slice_at s orr ! j)) [i..<n] @
                   drop n (slice_at s mr)))"
  using assms
proof (induction "n - i" arbitrary: i s)
  case 0
  then have "i = n" by simp
  moreover have "slice_put s mr (slice_at s mr) = s"
    using "0.prems" by (simp add: slice_put_def slice_at_def)
  ultimately show ?case
    by (subst merge_loop.simps) simp
next
  case (Suc k)
  then have lt: "i < n" by simp
  let ?cs = "slice_at s cr" and ?os = "slice_at s orr" and ?ms = "slice_at s mr"
  let ?x = "max (?cs ! i) (?os ! i)"
  let ?s' = "slice_put s mr (?ms[i := ?x])"
  have cs': "slice_at ?s' cr = ?cs"
    using Suc.prems by (simp add: slice_at_slice_put_other)
  have os': "slice_at ?s' orr = ?os"
    using Suc.prems by (simp add: slice_at_slice_put_other)
  have ms': "slice_at ?s' mr = ?ms[i := ?x]"
    using Suc.prems by (simp add: slice_at_slice_put_same)
  have step: "merge_loop s cr orr mr i n = merge_loop ?s' cr orr mr (Suc i) n"
    using lt Suc.prems
    by (subst merge_loop.simps) (simp add: slice_get_def slice_set_def)
  have "merge_loop ?s' cr orr mr (Suc i) n =
          Inr (slice_put ?s' mr
                 (take (Suc i) (slice_at ?s' mr) @
                  map (\<lambda>j. max (slice_at ?s' cr ! j) (slice_at ?s' orr ! j)) [Suc i..<n] @
                  drop n (slice_at ?s' mr)))"
  proof (rule Suc.hyps(1))
    show "k = n - Suc i" using Suc.hyps(2) by simp
    show "Suc i \<le> n" using lt by simp
    show "n \<le> length (slice_at ?s' cr)" using Suc.prems by (simp add: cs')
    show "n \<le> length (slice_at ?s' orr)" using Suc.prems by (simp add: os')
    show "n \<le> length (slice_at ?s' mr)" using Suc.prems by (simp add: ms')
    show "mr \<noteq> cr" "mr \<noteq> orr" by fact+
    show "mr < length (slices ?s')" using Suc.prems by simp
  qed
  moreover have "take (Suc i) (?ms[i := ?x]) = take i ?ms @ [?x]"
    using lt Suc.prems by (simp add: take_Suc_conv_app_nth)
  moreover have "drop n (?ms[i := ?x]) = drop n ?ms"
    using lt by simp
  moreover have "[i..<n] = i # [Suc i..<n]"
    using lt by (simp add: upt_rec)
  ultimately show ?case
    by (simp add: step cs' os' ms' slice_put_slice_put)
qed

lemma map_max_upt:
  assumes "length xs = n" and "length ys = n"
  shows "map (\<lambda>j. max (xs ! j) (ys ! j)) [0..<n] = map2 max xs ys"
  using assms by (intro nth_equalityI) simp_all

lemma valid_fields:
  assumes "valid pf s p" and "counter_at s p = Some c"
  shows "16 \<le> unat (m c)" and "unat (m c) < 2 ^ 32"
    and "b c = Log2_uint64 (ucast (m c))"
    and "alpha c = alpha_step (unat (m c))"
    and "hash c = sha_256 (Sum256 pf)"
    and "regs c < length (slices s)" and "hbuf c < length (slices s)"
    and "regs c \<noteq> hbuf c"
    and "length (slice_at s (regs c)) = unat (m c)"
    and "length (slice_at s (hbuf c)) = 8"
  using assms by (simp_all add: valid_def alpha_fn_unat split: if_splits)

lemma ucast_down_up:
  assumes "unat (w :: uint64) < 2 ^ 32"
  shows "unat (ucast w :: uint32) = unat w" and "(ucast (ucast w :: uint32) :: uint64) = w"
proof -
  show u: "unat (ucast w :: uint32) = unat w"
    using assms by (simp add: unsigned_ucast_eq take_bit_nat_eq_self)
  have "unat (ucast (ucast w :: uint32) :: uint64) = unat w"
    by (simp add: unat_ucast_up u)
  then show "(ucast (ucast w :: uint32) :: uint64) = w"
    by (rule word_unat_eq_iff [THEN iffD2])
qed

lemma slice_at_append:
  "a < length (slices s) \<Longrightarrow> slice_at (s\<lparr>slices := slices s @ xs, counters := cs\<rparr>) a = slice_at s a"
  by (simp add: slice_at_def nth_append)

lemma Merge_valid:
  assumes vp: "valid pf s p" and vq: "valid pf s q"
    and cp: "counter_at s p = Some c" and cq: "counter_at s q = Some other"
    and mm: "m other = m c"
  shows "Merge pf s p q =
           Inr (length (counters s),
                s\<lparr>slices := slices s @
                    [map2 max (slice_at s (regs c)) (slice_at s (regs other)), replicate 8 0],
                  counters := counters s @
                    [\<lparr>regs = length (slices s), m = m c, b = b c, alpha = alpha c,
                      hash = hash c, hbuf = Suc (length (slices s))\<rparr>]\<rparr>)"
proof -
  note fc = valid_fields [OF vp cp] and fo = valid_fields [OF vq cq]
  let ?n = "unat (m c)"
  let ?k = "length (slices s)"
  let ?new = "\<lparr>regs = ?k, m = m c, b = b c, alpha = alpha c, hash = hash c, hbuf = Suc ?k\<rparr>"
  let ?s1 = "s\<lparr>slices := slices s @ [replicate ?n 0, replicate 8 0],
               counters := counters s @ [?new]\<rparr>"
  have u: "unat (ucast (m c) :: uint32) = ?n" and uu: "(ucast (ucast (m c) :: uint32) :: uint64) = m c"
    using ucast_down_up [OF fc(2)] by simp_all
  have "\<not> (ucast (m c) :: uint32) < 16"
    using fc(1) by (simp add: word_less_nat_alt u)
  then have new: "NewCounter pf s (ucast (m c)) = Inr (length (counters s), ?s1)"
    by (simp add: NewCounter_ok u uu fc(3,4,5))
  have ix: "counters ?s1 ! length (counters s) = ?new"
    by simp
  have sc: "slice_at ?s1 (regs c) = slice_at s (regs c)"
    by (rule slice_at_append [OF fc(6)])
  have so: "slice_at ?s1 (regs other) = slice_at s (regs other)"
    by (rule slice_at_append [OF fo(6)])
  have sm: "slice_at ?s1 ?k = replicate ?n 0"
    by (simp add: slice_at_def nth_append)
  have loop: "merge_loop ?s1 (regs c) (regs other) ?k 0 ?n =
          Inr (slice_put ?s1 ?k
                 (take 0 (slice_at ?s1 ?k) @
                  map (\<lambda>j. max (slice_at ?s1 (regs c) ! j) (slice_at ?s1 (regs other) ! j)) [0..<?n] @
                  drop ?n (slice_at ?s1 ?k)))"
  proof (rule merge_loop_result)
    show "0 \<le> ?n" by simp
    show "?n \<le> length (slice_at ?s1 (regs c))" by (simp add: sc fc(9))
    show "?n \<le> length (slice_at ?s1 (regs other))" by (simp add: so fo(9) mm)
    show "?n \<le> length (slice_at ?s1 ?k)" by (simp add: sm)
    show "?k \<noteq> regs c" using fc(6) by simp
    show "?k \<noteq> regs other" using fo(6) by simp
    show "?k < length (slices ?s1)" by simp
  qed
  have mx: "map (\<lambda>j. max (slice_at s (regs c) ! j) (slice_at s (regs other) ! j)) [0..<?n] =
          map2 max (slice_at s (regs c)) (slice_at s (regs other))"
    by (rule map_max_upt) (simp_all add: fc(9) fo(9) mm)
  have fin: "slice_put ?s1 ?k (map2 max (slice_at s (regs c)) (slice_at s (regs other))) =
          s\<lparr>slices := slices s @
                    [map2 max (slice_at s (regs c)) (slice_at s (regs other)), replicate 8 0],
            counters := counters s @ [?new]\<rparr>"
    by (simp add: slice_put_def)
  have loop': "merge_loop ?s1 (regs c) (regs other) ?k 0 (length (slice_at s (regs c))) =
     Inr (s\<lparr>slices := slices s @
                    [map2 max (slice_at s (regs c)) (slice_at s (regs other)), replicate 8 0],
            counters := counters s @ [?new]\<rparr>)"
    using loop by (simp only: sc so sm mx fc(9) take_0 append_Nil drop_replicate
        diff_self_eq_0 replicate_0 append_Nil2 fin)
  show ?thesis
    unfolding Merge_def
    by (simp only: cp cq mm new ix sc loop' option.case sum.case prod.case
        Counter.select_convs if_False not_True_eq_False simp_thms)
qed

subsection \<open>Growing stores and the invariant\<close>

lemma extends_refl: "extends s s"
  by (simp add: extends_def)

lemma take_take_le:
  assumes "k \<le> n" and "take n zs = ys" and "take k ys = xs"
  shows "take k zs = xs"
proof -
  have "take k (take n zs) = take k zs"
    using assms(1) by (simp add: min_def)
  with assms(2,3) show ?thesis by simp
qed

lemma extends_trans:
  assumes "extends s s'" and "extends s' s''"
  shows "extends s s''"
proof -
  from assms have le: "length (counters s) \<le> length (counters s')"
      "length (counters s') \<le> length (counters s'')"
      "length (slices s) \<le> length (slices s')"
      "length (slices s') \<le> length (slices s'')"
    and tk: "take (length (counters s)) (counters s') = counters s"
      "take (length (counters s')) (counters s'') = counters s'"
      "take (length (slices s)) (slices s') = slices s"
      "take (length (slices s')) (slices s'') = slices s'"
    by (simp_all add: extends_def)
  have "take (length (counters s)) (counters s'') = counters s"
    by (rule take_take_le [OF le(1) tk(2) tk(1)])
  moreover have "take (length (slices s)) (slices s'') = slices s"
    by (rule take_take_le [OF le(3) tk(4) tk(3)])
  ultimately show ?thesis
    using le by (simp add: extends_def)
qed

lemma extends_append:
  "extends s (s\<lparr>slices := slices s @ xs, counters := counters s @ cs\<rparr>)"
  by (simp add: extends_def)

lemma extends_nth:
  assumes "extends s s'"
  shows "p < length (counters s) \<Longrightarrow> counters s' ! p = counters s ! p"
    and "a < length (slices s) \<Longrightarrow> slices s' ! a = slices s ! a"
proof -
  from assms have c: "take (length (counters s)) (counters s') = counters s"
    and sl: "take (length (slices s)) (slices s') = slices s"
    by (simp_all add: extends_def)
  show "counters s' ! p = counters s ! p" if "p < length (counters s)"
    using that nth_take [of p "length (counters s)" "counters s'"] by (simp add: c)
  show "slices s' ! a = slices s ! a" if "a < length (slices s)"
    using that nth_take [of a "length (slices s)" "slices s'"] by (simp add: sl)
qed

lemma extends_counter_at:
  assumes "extends s s'" and "counter_at s p = Some c"
  shows "counter_at s' p = Some c"
proof -
  from assms(2) have p: "p < length (counters s)" and c: "counters s ! p = c"
    by (simp_all add: counter_at_def split: if_splits)
  moreover from assms(1) have "length (counters s) \<le> length (counters s')"
    by (simp add: extends_def)
  ultimately show ?thesis
    using extends_nth(1) [OF assms(1) p] by (simp add: counter_at_def)
qed

lemma extends_slice_at:
  assumes "extends s s'" and "a < length (slices s)"
  shows "slice_at s' a = slice_at s a"
proof -
  from assms(1) have "length (slices s) \<le> length (slices s')"
    by (simp add: extends_def)
  with assms(2) show ?thesis
    using extends_nth(2) [OF assms] by (simp add: slice_at_def)
qed

lemma extends_valid:
  assumes "extends s s'" and "valid pf s p"
  shows "valid pf s' p" and "counter_at s' p = counter_at s p"
    and "registers s' p = registers s p"
proof -
  from assms(2) obtain c where c: "counter_at s p = Some c"
    by (auto simp add: valid_def split: option.splits)
  note f = valid_fields [OF assms(2) c]
  have c': "counter_at s' p = Some c"
    by (rule extends_counter_at [OF assms(1) c])
  have r: "slice_at s' (regs c) = slice_at s (regs c)"
    by (rule extends_slice_at [OF assms(1) f(6)])
  have h: "slice_at s' (hbuf c) = slice_at s (hbuf c)"
    by (rule extends_slice_at [OF assms(1) f(7)])
  from assms(1) have le: "length (slices s) \<le> length (slices s')"
    by (simp add: extends_def)
  show "counter_at s' p = counter_at s p"
    by (simp add: c c')
  show "registers s' p = registers s p"
    by (simp add: registers_def c c' r)
  from assms(2) f(6,7) le show "valid pf s' p"
    by (simp add: valid_def c c' r h)
qed

lemma NewCounter_valid:
  assumes "NewCounter pf s n = Inr (p, s')"
  shows "valid pf s' p" and "extends s s'" and "counter_at s p = None"
    and "registers s' p = replicate (unat n) 0"
proof -
  from assms have n: "\<not> n < 16"
    by (auto simp add: NewCounter_def minNumRegisters_def split: if_splits)
  then have n': "16 \<le> unat n"
    by (simp add: word_less_nat_alt)
  have n32: "unat n < 2 ^ 32"
    using unsigned_less [of n, where 'a = nat] by simp
  let ?k = "length (slices s)"
  let ?new = "\<lparr>regs = ?k, m = ucast n, b = Log2_uint64 n,
               alpha = alpha_step (unat n), hash = sha_256 (Sum256 pf), hbuf = Suc ?k\<rparr>"
  from assms have p: "p = length (counters s)"
    and s': "s' = s\<lparr>slices := slices s @ [replicate (unat n) 0, replicate 8 0],
                    counters := counters s @ [?new]\<rparr>"
    by (simp_all add: NewCounter_ok [OF n])
  have c: "counter_at s' p = Some ?new"
    by (simp add: counter_at_def p s')
  have rt: "(ucast (ucast n :: uint64) :: uint32) = n"
    by (rule word_unat_eq_iff [THEN iffD2])
      (simp add: unsigned_ucast_eq unat_ucast_up take_bit_word_eq_self)
  show "extends s s'"
    unfolding s' by (rule extends_append)
  show "counter_at s p = None"
    by (simp add: counter_at_def p)
  show "registers s' p = replicate (unat n) 0"
    by (simp add: registers_def c) (simp add: s' slice_at_def nth_append)
  have "slice_at s' ?k = replicate (unat n) 0" "slice_at s' (Suc ?k) = replicate 8 0"
    by (simp_all add: s' slice_at_def nth_append)
  then show "valid pf s' p"
    using n' n32
    by (simp add: valid_def c unat_ucast_up alpha_fn_unat rt) (simp add: s')
qed

lemma Add_preserves_valid:
  assumes "valid pf s p" and "Add pf s p inp = Inr s'"
  shows "valid pf s' p" and "counters s' = counters s"
    and "length (slices s') = length (slices s)"
proof -
  from assms(1) obtain c where c: "counter_at s p = Some c"
    by (auto simp add: valid_def split: option.splits)
  note f = valid_fields [OF assms(1) c]
  define dst where "dst = map (\<lambda>n. Sum256 pf inp ! n) [0..<8]"
  define v where "v = Uint64 pf dst"
  define i where "i = unat (index_of c v)"
  define rs where "rs = slice_at s (regs c)"
  from assms(2) have s': "s' = slice_put (slice_put s (hbuf c) dst) (regs c)
                      (rs[i := max (rs ! i) (rank_of v)])"
    by (simp add: Add_valid [OF assms(1) c] Let_def dst_def v_def i_def rs_def)
  show cs: "counters s' = counters s"
    by (simp add: s')
  show ls: "length (slices s') = length (slices s)"
    by (simp add: s')
  have c': "counter_at s' p = Some c"
    using c by (simp add: s')
  have r: "slice_at s' (regs c) = rs[i := max (rs ! i) (rank_of v)]"
    using f(6) by (simp add: s' slice_at_slice_put_same)
  have h: "slice_at s' (hbuf c) = dst"
    using f(7,8) by (simp add: s' slice_at_slice_put_other slice_at_slice_put_same)
  from assms(1) f show "valid pf s' p"
    by (simp add: valid_def c c' r h ls) (simp add: rs_def dst_def)
qed

subsection \<open>The estimate\<close>

lemma foldl_add_sum_list:
  fixes f :: "'a \<Rightarrow> real"
  shows "foldl (\<lambda>z x. z + f x) a xs = a + sum_list (map f xs)"
  by (induction xs arbitrary: a) simp_all

lemma foldl_count_zero:
  "foldl (\<lambda>v reg. if reg = 0 then v + 1 else v) (a :: real) (xs :: byte list) =
     a + real (length (filter (\<lambda>reg. reg = 0) xs))"
  by (induction xs arbitrary: a) simp_all

lemma sum_powr_bounds:
  fixes xs :: "byte list"
  shows "sum_list (map (\<lambda>reg. 2 powr (- real (unat reg))) xs) \<le> real (length xs)"
    and "xs \<noteq> [] \<Longrightarrow> 0 < sum_list (map (\<lambda>reg. 2 powr (- real (unat reg))) xs)"
proof -
  have le1: "2 powr (- real (unat reg)) \<le> (1 :: real)" for reg :: byte
  proof -
    have "2 powr (- real (unat reg)) \<le> (2 :: real) powr 0"
      by (rule powr_mono) simp_all
    then show ?thesis by simp
  qed
  show "sum_list (map (\<lambda>reg. 2 powr (- real (unat reg))) xs) \<le> real (length xs)"
  proof (induction xs)
    case Nil
    show ?case by simp
  next
    case (Cons x xs)
    with le1 [of x] show ?case by simp
  qed
  have nn: "0 \<le> sum_list (map (\<lambda>reg. 2 powr (- real (unat reg))) ys)" for ys :: "byte list"
    by (induction ys) simp_all
  show "0 < sum_list (map (\<lambda>reg. 2 powr (- real (unat reg))) xs)" if "xs \<noteq> []"
  proof (cases xs)
    case Nil
    with that show ?thesis by simp
  next
    case (Cons y ys)
    have "0 < 2 powr (- real (unat y))" by simp
    with nn [of ys] show ?thesis
      by (simp add: Cons add_pos_nonneg)
  qed
qed

lemma alpha_step_bounds:
  assumes "16 \<le> n"
  shows "0.673 \<le> alpha_step n" and "alpha_step n < 0.7213"
proof -
  have pos: "0 < real n" using assms by simp
  have a: "0.673 \<le> 0.7213 / (1 + 1.079 / real n)" if "128 < n"
  proof -
    have "0.673 * (real n + 1.079) \<le> 0.7213 * real n"
      using that by simp
    then show ?thesis
      using pos by (simp add: field_simps)
  qed
  have b: "0.7213 / (1 + 1.079 / real n) < (0.7213 :: real)"
    using pos by (simp add: field_simps)
  show "0.673 \<le> alpha_step n"
    using a by (simp add: alpha_step_def)
  show "alpha_step n < 0.7213"
    using b by (simp add: alpha_step_def)
qed

lemma unat_m_squared:
  assumes "unat (w :: uint64) < 2 ^ 32"
  shows "real (unat (w * w)) = (real (unat w))\<^sup>2"
proof -
  have "unat w * unat w < 2 ^ 32 * 2 ^ 32"
    using assms by (intro mult_strict_mono) simp_all
  then have "unat w * unat w < 2 ^ LENGTH(64)"
    by simp
  then have "unat (w * w) = unat w * unat w"
    by (rule unat_mult_lem [THEN iffD1])
  then show ?thesis
    by (simp add: power2_eq_square)
qed

lemma raw_estimate_lower:
  fixes rs :: "byte list"
  assumes "16 \<le> n" and "length rs = n"
  shows "0.673 * real n \<le>
           alpha_step n * (real n)\<^sup>2 * (1 / (\<Sum>reg\<leftarrow>rs. 2 powr (- real (unat reg))))"
proof -
  let ?S = "\<Sum>reg\<leftarrow>rs. 2 powr (- real (unat reg))"
  have rs: "rs \<noteq> []" using assms by auto
  have S1: "?S \<le> real n" using sum_powr_bounds(1) [of rs] assms by simp
  have S0: "0 < ?S" by (rule sum_powr_bounds(2) [OF rs])
  have n0: "0 < real n" using assms by simp
  have "real n \<le> (real n)\<^sup>2 * (1 / ?S)"
  proof -
    have "real n * ?S \<le> real n * real n"
      using S1 n0 by (intro mult_left_mono) simp_all
    then show ?thesis
      using S0 by (simp add: field_simps power2_eq_square)
  qed
  moreover have "0.673 \<le> alpha_step n"
    by (rule alpha_step_bounds(1) [OF assms(1)])
  ultimately have "0.673 * real n \<le> alpha_step n * ((real n)\<^sup>2 * (1 / ?S))"
    using n0 by (intro mult_mono) simp_all
  then show ?thesis
    by (simp add: mult.assoc)
qed

lemma not_less_scaled:
  fixes x e :: real
  assumes "k * x \<le> e" and "0 < x" and "l < k"
  shows "\<not> e < l * x"
proof -
  have "l * x < k * x"
    using assms(2,3) by (rule mult_strict_right_mono [rotated])
  with assms(1) show ?thesis by simp
qed

text \<open>
  The raw estimate of a valid sketch is at least \<open>0.673 * m\<close>: every term of the sum is
  at most 1 and \<open>alpha\<close> is at least 0.673. So the test \<^verbatim>\<open>e < (2.0/5)*float64(c.m)\<close> of
  \<^verbatim>\<open>correction\<close> is false for every valid sketch, and the small-range branch is never taken.
\<close>

lemma small_range_correction_dead:
  assumes "valid pf s p" and "counter_at s p = Some c"
  shows "\<not> alpha c * (real (unat (m c)))\<^sup>2 *
             (1 / (\<Sum>reg\<leftarrow>slice_at s (regs c). 2 powr (- real (unat reg))))
           < (2 / 5) * real (unat (m c))"
proof -
  note f = valid_fields [OF assms]
  have low: "0.673 * real (unat (m c)) \<le>
      alpha c * (real (unat (m c)))\<^sup>2 *
        (1 / (\<Sum>reg\<leftarrow>slice_at s (regs c). 2 powr (- real (unat reg))))"
    unfolding f(4) by (rule raw_estimate_lower [OF f(1) f(9)])
  have "0 < unat (m c)" using f(1) by simp
  then have "0 < real (unat (m c))" by (simp only: of_nat_0_less_iff)
  with low show ?thesis
    by (rule not_less_scaled) simp
qed

lemma Count_valid:
  assumes "valid pf s p" and "counter_at s p = Some c"
  shows "Count s p = Inr (Count_spec (alpha c) (unat (m c)) (registers s p))"
proof -
  note f = valid_fields [OF assms]
  let ?n = "unat (m c)"
  let ?rs = "slice_at s (regs c)"
  let ?S = "\<Sum>reg\<leftarrow>?rs. 2 powr (- real (unat reg))"
  let ?E = "alpha c * (real ?n)\<^sup>2 * (1 / ?S)"
  have r: "registers s p = ?rs"
    by (simp add: registers_def assms(2))
  have dead: "\<not> ?E < (2 / 5) * real ?n"
    by (rule small_range_correction_dead [OF assms])
  have cnt: "Count s p = Inr (correction s c ?E)"
    by (simp add: Count_def assms(2) foldl_add_sum_list unat_m_squared [OF f(2)])
  from dead show ?thesis
    by (simp add: cnt correction_def Count_spec_def r Let_def)
qed

lemma correction_eq:
  "correction s c e =
     (let n = real (unat (m c)); V = length (filter (\<lambda>reg. reg = 0) (slice_at s (regs c)))
      in if e < (2 / 5) * n then (if V \<noteq> 0 then n * log 10 (n / real V) else e)
         else if e > (1 / 30) * 2 ^ 32 then - (2 ^ 32) * log 10 (1 - e / 2 ^ 32)
         else e)"
  by (simp add: correction_def foldl_count_zero Let_def)

lemma Count_spec_fresh:
  assumes "16 \<le> n"
  shows "Count_spec (alpha_step n) n (replicate n 0) =
           (if alpha_step n * real n > (1 / 30) * 2 ^ 32
            then - (2 ^ 32) * log 10 (1 - alpha_step n * real n / 2 ^ 32)
            else alpha_step n * real n)"
proof -
  have n0: "0 < real n" using assms by simp
  have S: "(\<Sum>reg\<leftarrow>replicate n (0 :: byte). 2 powr (- real (unat reg))) = real n"
    by (simp add: map_replicate_const sum_list_replicate)
  have E: "alpha_step n * (real n)\<^sup>2 * (1 / real n) = alpha_step n * real n"
    using n0 by (simp add: power2_eq_square)
  have "0.673 * real n \<le> alpha_step n * real n"
    using alpha_step_bounds(1) [OF assms] n0 by (intro mult_right_mono) simp_all
  then have dead: "\<not> alpha_step n * real n < (2 / 5) * real n"
    using n0 by (rule not_less_scaled) simp
  show ?thesis
    unfolding Count_spec_def S E Let_def using dead by simp
qed

lemma fresh_estimate_pos:
  assumes "16 \<le> n" and "n < 2 ^ 32"
  shows "0 < Count_spec (alpha_step n) n (replicate n 0)"
proof -
  let ?e = "alpha_step n * real n"
  have n0: "0 < real n" using assms by simp
  have a0: "0 < alpha_step n"
    using alpha_step_bounds(1) [OF assms(1)] by simp
  have e0: "0 < ?e"
    using a0 n0 by simp
  have "real n < 2 ^ 32"
    using assms(2) by (metis of_nat_less_iff of_nat_numeral of_nat_power)
  then have "?e < 1 * 2 ^ 32"
    using alpha_step_bounds(2) [OF assms(1)] a0 n0 by (intro mult_strict_mono) simp_all
  then have lt1: "?e / 2 ^ 32 < 1"
    by simp
  have gt0: "0 < ?e / 2 ^ 32"
    using e0 by simp
  have "log 10 (1 - ?e / 2 ^ 32) < 0"
    using lt1 gt0 by simp
  then have "0 < - (2 ^ 32) * log 10 (1 - ?e / 2 ^ 32)"
    by (simp add: mult_pos_neg)
  with e0 show ?thesis
    by (simp add: Count_spec_fresh [OF assms(1)])
qed

subsection \<open>The concrete stores\<close>

lemma Log2_uint64_16: "Log2_uint64 16 = 4"
  by (simp add: Log2_uint64_floorlog compute_floorlog)

lemma Log2_uint64_20: "Log2_uint64 20 = 4"
  by (simp add: Log2_uint64_floorlog compute_floorlog)

lemma NewCounter_16: "NewCounter test_platform empty_store 16 = Inr (0, fresh16)"
  by (simp add: fresh16_def store_of_def NewCounter_ok empty_store_def)

lemma NewCounter_20: "NewCounter test_platform empty_store 20 = Inr (0, fresh20)"
  by (simp add: fresh20_def store_of_def NewCounter_ok empty_store_def)

lemma fresh16_eq:
  "fresh16 = \<lparr>counters = [\<lparr>regs = 0, m = 16, b = 4, alpha = 0.673,
       hash = sha_256 (Sum256 test_platform), hbuf = 1\<rparr>],
     slices = [replicate 16 0, replicate 8 0]\<rparr>"
  by (simp add: fresh16_def store_of_def NewCounter_ok empty_store_def Log2_uint64_16
      alpha_step_def)

lemma fresh20_eq:
  "fresh20 = \<lparr>counters = [\<lparr>regs = 0, m = 20, b = 4, alpha = 0.673,
       hash = sha_256 (Sum256 test_platform), hbuf = 1\<rparr>],
     slices = [replicate 20 0, replicate 8 0]\<rparr>"
  by (simp add: fresh20_def store_of_def NewCounter_ok empty_store_def Log2_uint64_20
      alpha_step_def)

subsection \<open>The contract of construction\<close>

text \<open>
  C6. For every \<^verbatim>\<open>uint32\<close> number of registers, construction fails with
  \<^verbatim>\<open>errNumRegistersTooSmall\<close> exactly when the number is below 16; 8 fails and 16 succeeds.
  On success the store grows by one struct and by the two arrays it owns and is otherwise
  as before: the struct has \<open>m\<close> the requested number, \<open>b\<close> the floor of its binary
  logarithm, \<open>alpha\<close> by the step function, and \<open>m\<close> registers that are all zero.
\<close>

theorem NewCounter_contract:
  "(NewCounter pf s n = Inl errNumRegistersTooSmall \<longleftrightarrow> n < 16) \<and>
   NewCounter pf s 8 = Inl errNumRegistersTooSmall \<and>
   (\<exists>r. NewCounter pf s 16 = Inr r) \<and>
   (\<not> n < 16 \<longrightarrow>
      (\<exists>p s' c. NewCounter pf s n = Inr (p, s') \<and>
         counter_at s p = None \<and> counter_at s' p = Some c \<and>
         m c = ucast n \<and> unat (m c) = unat n \<and>
         unat (b c) = nat \<lfloor>log 2 (real (unat n))\<rfloor> \<and>
         alpha c = alpha_step (unat n) \<and>
         registers s' p = replicate (unat n) 0 \<and>
         counters s' = counters s @ [c] \<and>
         slices s' = slices s @ [replicate (unat n) 0, replicate 8 0]))"
proof (intro conjI impI)
  show "(NewCounter pf s n = Inl errNumRegistersTooSmall) = (n < 16)"
    by (cases "n < 16") (simp_all add: NewCounter_small NewCounter_ok)
  show "NewCounter pf s 8 = Inl errNumRegistersTooSmall"
    by (simp add: NewCounter_small)
  show "\<exists>r. NewCounter pf s 16 = Inr r"
    by (simp add: NewCounter_ok)
next
  assume n: "\<not> n < 16"
  then have "0 < n"
    by (simp add: word_less_nat_alt word_gt_0)
  then have ub: "unat (Log2_uint64 n) = nat \<lfloor>log 2 (real (unat n))\<rfloor>"
    by (rule unat_Log2_uint64)
  let ?c = "\<lparr>regs = length (slices s), m = ucast n, b = Log2_uint64 n,
              alpha = alpha_step (unat n), hash = sha_256 (Sum256 pf),
              hbuf = Suc (length (slices s))\<rparr>"
  let ?s' = "s\<lparr>slices := slices s @ [replicate (unat n) 0, replicate 8 0],
               counters := counters s @ [?c]\<rparr>"
  have new: "NewCounter pf s n = Inr (length (counters s), ?s')"
    by (rule NewCounter_ok [OF n])
  have "counter_at ?s' (length (counters s)) = Some ?c"
    by (simp add: counter_at_def)
  moreover have "registers ?s' (length (counters s)) = replicate (unat n) 0"
    by (rule NewCounter_valid(4) [OF new])
  moreover have "counter_at s (length (counters s)) = None"
    by (simp add: counter_at_def)
  ultimately show "\<exists>p s' c. NewCounter pf s n = Inr (p, s') \<and>
         counter_at s p = None \<and> counter_at s' p = Some c \<and>
         m c = ucast n \<and> unat (m c) = unat n \<and>
         unat (b c) = nat \<lfloor>log 2 (real (unat n))\<rfloor> \<and>
         alpha c = alpha_step (unat n) \<and>
         registers s' p = replicate (unat n) 0 \<and>
         counters s' = counters s @ [c] \<and>
         slices s' = slices s @ [replicate (unat n) 0, replicate 8 0]"
    using new ub by (simp add: unat_ucast_up)
qed

theorem NewCounter_contract_witness:
  "\<not> (20 :: uint32) < 16 \<and>
   (\<exists>c. NewCounter test_platform empty_store 20 = Inr (0, fresh20) \<and>
        counter_at fresh20 0 = Some c \<and> m c = 20 \<and> unat (b c) = 4 \<and>
        alpha c = 0.673 \<and> registers fresh20 0 = replicate 20 0 \<and>
        slices fresh20 = [replicate 20 0, replicate 8 0])"
  using NewCounter_contract [of test_platform empty_store 20]
  by (simp add: NewCounter_20 fresh20_eq counter_at_def registers_def slice_at_def)

subsection \<open>The panic of alpha\<close>

lemma slice_get_no_PanicAlpha: "slice_get s a i \<noteq> Inl (PanicAlpha w)"
  by (simp add: slice_get_def)

lemma slice_set_no_PanicAlpha: "slice_set s a i x \<noteq> Inl (PanicAlpha w)"
  by (simp add: slice_set_def)

lemma merge_loop_no_PanicAlpha: "merge_loop s cr orr mr i n \<noteq> Inl (PanicAlpha w)"
proof (induction s cr orr mr i n rule: merge_loop.induct)
  case (1 s cr orr mr i n)
  show ?case
  proof (cases "i < n")
    case False
    then show ?thesis
      by (subst merge_loop.simps) simp
  next
    case True
    show ?thesis
    proof (cases "slice_get s cr i")
      case (Inl e)
      with True slice_get_no_PanicAlpha [of s cr i w] show ?thesis
        by (subst merge_loop.simps) simp
    next
      case reg: (Inr reg)
      show ?thesis
      proof (cases "slice_get s orr i")
        case (Inl e)
        with True reg slice_get_no_PanicAlpha [of s orr i w] show ?thesis
          by (subst merge_loop.simps) simp
      next
        case oreg: (Inr oreg)
        show ?thesis
        proof (cases "slice_set s mr i (max reg oreg)")
          case (Inl e)
          with True reg oreg slice_set_no_PanicAlpha [of s mr i "max reg oreg" w] show ?thesis
            by (subst merge_loop.simps) simp
        next
          case (Inr s')
          with True reg oreg "1.IH" [OF True reg oreg Inr] show ?thesis
            by (subst merge_loop.simps) simp
        qed
      qed
    qed
  qed
qed

lemma NewCounter_no_PanicAlpha: "NewCounter pf s n \<noteq> Inl (PanicAlpha w)"
  by (cases "n < 16") (simp_all add: NewCounter_small NewCounter_ok)

text \<open>
  C7. The \<^verbatim>\<open>panic(m)\<close> of \<^verbatim>\<open>alpha\<close> cannot be reached through the public constructor:
  whenever \<^verbatim>\<open>NewCounter\<close> passes its check of \<^verbatim>\<open>minNumRegisters\<close>, the call of \<^verbatim>\<open>alpha\<close> it
  makes returns a number, so no call of \<^verbatim>\<open>NewCounter\<close> ends in that panic, and neither does
  a \<^verbatim>\<open>Merge\<close>, which constructs its result through \<^verbatim>\<open>NewCounter\<close>.
\<close>

theorem alpha_panic_unreachable:
  "(\<not> n < minNumRegisters \<longrightarrow> (\<exists>a. alpha_fn (ucast n) = Inr a)) \<and>
   NewCounter pf s n \<noteq> Inl (PanicAlpha w) \<and>
   Merge pf s p q \<noteq> Inl (PanicAlpha w)"
proof (intro conjI impI)
  assume "\<not> n < minNumRegisters"
  then have "\<not> unat n < 16"
    by (simp add: minNumRegisters_def word_less_nat_alt)
  then show "\<exists>a. alpha_fn (ucast n) = Inr a"
    by (simp add: alpha_fn_unat unat_ucast_up)
next
  show "NewCounter pf s n \<noteq> Inl (PanicAlpha w)"
    by (rule NewCounter_no_PanicAlpha)
next
  show "Merge pf s p q \<noteq> Inl (PanicAlpha w)"
    using NewCounter_no_PanicAlpha [of pf s _ w] merge_loop_no_PanicAlpha [of _ _ _ _ 0 _ w]
    by (auto simp add: Merge_def split: option.splits sum.splits)
qed

theorem alpha_panic_unreachable_witness:
  "\<not> (16 :: uint32) < minNumRegisters \<and>
   alpha_fn (ucast (16 :: uint32)) = Inr 0.673 \<and>
   NewCounter test_platform empty_store 16 = Inr (0, fresh16)"
  using alpha_panic_unreachable [of 16 test_platform empty_store "16" 0 0]
  by (simp add: minNumRegisters_def alpha_fn_def NewCounter_16)

subsection \<open>Add stays inside the register array\<close>

text \<open>
  C10. For every sketch that satisfies the invariant of construction (any register count
  from 16 on, a power of two or not), \<open>b\<close> is the floor of the binary logarithm of \<open>m\<close>, and
  the index \<^verbatim>\<open>v & ((1 << c.b) - 1)\<close> that \<^verbatim>\<open>Add\<close> computes is at most \<open>2 ^ b - 1\<close>, which is at
  most \<open>m - 1\<close>, so for every hash value it lies inside the register array, and \<^verbatim>\<open>Add\<close>
  returns without a panic.
\<close>

theorem Add_index_in_bounds:
  assumes "valid pf s p" and "counter_at s p = Some c"
  shows "unat (b c) = nat \<lfloor>log 2 (real (unat (m c)))\<rfloor> \<and>
         (\<forall>v. index_of c v = v AND (2 ^ unat (b c) - 1) \<and>
              unat (index_of c v) \<le> 2 ^ unat (b c) - 1 \<and>
              2 ^ unat (b c) - 1 \<le> unat (m c) - 1 \<and>
              unat (index_of c v) < length (registers s p)) \<and>
         (\<exists>s'. Add pf s p inp = Inr s')"
proof -
  have "registers s p = slice_at s (regs c)"
    by (simp add: registers_def assms(2))
  moreover have "index_of c v = v AND (2 ^ unat (b c) - 1)" for v
    by (simp add: index_of_def push_bit_of_1)
  ultimately show ?thesis
    using valid_index_bounds [OF assms] valid_unat_b [OF assms]
    by (simp add: Add_valid [OF assms] Let_def)
qed

theorem Add_index_in_bounds_witness:
  "valid test_platform fresh20 0 \<and>
   counter_at fresh20 0 = Some (counters fresh20 ! 0) \<and>
   unat (m (counters fresh20 ! 0)) = 20 \<and>
   unat (b (counters fresh20 ! 0)) = 4 \<and>
   unat (index_of (counters fresh20 ! 0) 0xFFFFFFFFFFFFFFFF) = 15 \<and>
   (\<exists>s'. Add test_platform fresh20 0 [0xFF, 0xFF] = Inr s')"
proof -
  have v: "valid test_platform fresh20 0"
    by (rule NewCounter_valid(1) [OF NewCounter_20])
  have c: "counter_at fresh20 0 = Some (counters fresh20 ! 0)"
    by (simp add: counter_at_def fresh20_eq)
  have "unat (index_of (counters fresh20 ! 0) 0xFFFFFFFFFFFFFFFF) = 15"
    by (simp add: fresh20_eq index_of_def)
  with v c Add_index_in_bounds [OF v c, of "[0xFF, 0xFF]"] show ?thesis
    by (simp add: fresh20_eq)
qed

subsection \<open>Add on a sketch whose register count is a power of two\<close>

lemma floor_log2_power: "nat \<lfloor>log 2 (real ((2 :: nat) ^ k))\<rfloor> = k"
  by simp

lemma valid_power_of_two:
  assumes "valid pf s p" and "counter_at s p = Some c" and "unat (m c) = 2 ^ k"
  shows "unat (b c) = k" and "index_of c v = v AND (m c - 1)"
proof -
  show k: "unat (b c) = k"
    by (simp add: valid_unat_b [OF assms(1,2)] assms(3))
  have "k < 64"
  proof (rule ccontr)
    assume "\<not> k < 64"
    then have "(2 :: nat) ^ 64 \<le> 2 ^ k"
      by (intro power_increasing) simp_all
    moreover have "unat (m c) < 2 ^ 64"
      using unsigned_less [of "m c", where 'a = nat] by simp
    ultimately show False
      using assms(3) by simp
  qed
  have "m c = word_of_nat (unat (m c))"
    by (simp add: of_nat_unat)
  also have "\<dots> = 2 ^ k"
    by (simp add: assms(3))
  finally have "m c = 2 ^ k" .
  then show "index_of c v = v AND (m c - 1)"
    by (simp add: index_of_def k push_bit_of_1)
qed

text \<open>
  C5. For a sketch that satisfies the invariant of construction and whose \<open>m\<close> is a power
  of two, \<^verbatim>\<open>Add\<close> of any byte sequence returns normally. With \<open>v\<close> the 64-bit number read
  from the first eight bytes of the digest of the element, the register index is
  \<open>v AND (m - 1)\<close>, the low \<open>b\<close> bits of \<open>v\<close>; the rank is the number of leading zero bits of
  \<open>v\<close> plus one, 65 for \<open>v = 0\<close>; and the new store differs from the old one in that the
  register at that index holds the maximum of its old value and the rank. No struct
  changes (so \<open>m\<close>, \<open>b\<close>, \<open>alpha\<close> and the hash function of every sketch stay), and no array
  other than the sketch's own two: besides the registers that is the scratch buffer
  \<^verbatim>\<open>hbuf\<close>, which receives the eight digest bytes it is there to receive and is read by no
  operation before it is overwritten.
\<close>

theorem Add_effect:
  assumes "valid pf s p" and "counter_at s p = Some c" and "unat (m c) = 2 ^ k"
  shows "let dst = map (\<lambda>j. Sum256 pf inp ! j) [0..<8];
             v = Uint64 pf dst;
             i = unat (v AND (m c - 1));
             rank = rank_of v;
             rs = registers s p
         in v AND (m c - 1) = take_bit (unat (b c)) v \<and>
            i < length rs \<and>
            unat rank = leading_zeros v + 1 \<and>
            (v = 0 \<longrightarrow> rank = 65) \<and>
            (\<exists>s'. Add pf s p inp = Inr s' \<and>
                  registers s' p = rs[i := max (rs ! i) rank] \<and>
                  counters s' = counters s \<and>
                  length (slices s') = length (slices s) \<and>
                  slice_at s' (hbuf c) = dst \<and>
                  (\<forall>a. a \<noteq> regs c \<and> a \<noteq> hbuf c \<longrightarrow> slice_at s' a = slice_at s a))"
proof -
  note f = valid_fields [OF assms(1,2)]
  define dst where "dst = map (\<lambda>j. Sum256 pf inp ! j) [0..<8]"
  define v where "v = Uint64 pf dst"
  define i where "i = unat (v AND (m c - 1))"
  define rs where "rs = registers s p"
  define s' where "s' = slice_put (slice_put s (hbuf c) dst) (regs c)
                          (rs[i := max (rs ! i) (rank_of v)])"
  have ix: "index_of c v = v AND (m c - 1)"
    by (rule valid_power_of_two(2) [OF assms])
  have rs: "rs = slice_at s (regs c)"
    by (simp add: rs_def registers_def assms(2))
  have low: "v AND (m c - 1) = take_bit (unat (b c)) v"
    by (simp add: ix [symmetric] index_of_def take_bit_eq_mask mask_eq_exp_minus_1)
  have bound: "i < length rs"
    using valid_index_bounds(3) [OF assms(1,2), of v] by (simp add: i_def ix rs)
  have rank: "unat (rank_of v) = leading_zeros v + 1"
    by (rule unat_rank_of)
  have rank0: "v = 0 \<longrightarrow> rank_of v = 65"
  proof
    assume "v = 0"
    then have "leading_zeros v = 64"
      by (simp add: leading_zeros_0)
    with rank have "unat (rank_of v) = unat (65 :: byte)"
      by simp
    then show "rank_of v = 65"
      by (rule word_unat_eq_iff [THEN iffD2])
  qed
  have add: "Add pf s p inp = Inr s'"
    by (simp add: Add_valid [OF assms(1,2)] Let_def s'_def dst_def v_def i_def rs
        valid_power_of_two(2) [OF assms])
  have c': "counter_at s' p = Some c"
    by (simp add: s'_def assms(2))
  have r': "registers s' p = rs[i := max (rs ! i) (rank_of v)]"
    using f(6) by (simp add: registers_def c') (simp add: s'_def slice_at_slice_put_same)
  have h': "slice_at s' (hbuf c) = dst"
    using f(7,8) by (simp add: s'_def slice_at_slice_put_other slice_at_slice_put_same)
  have other: "\<forall>a. a \<noteq> regs c \<and> a \<noteq> hbuf c \<longrightarrow> slice_at s' a = slice_at s a"
    by (simp add: s'_def slice_at_slice_put_other)
  have "counters s' = counters s" "length (slices s') = length (slices s)"
    by (simp_all add: s'_def)
  with low bound rank rank0 add r' h' other show ?thesis
    unfolding Let_def dst_def [symmetric] v_def [symmetric] i_def [symmetric] rs_def [symmetric]
    by blast
qed

lemma upt_8: "[0..<8] = [0, 1, 2, 3, 4, 5, 6, 7]"
  by (simp add: upt_rec)

lemma test_hash_value:
  "Uint64 test_platform
     (map (\<lambda>j. Sum256 test_platform [0x35, 0, 0, 0, 0, 0, 0, 0x01] ! j) [0..<8]) =
   0x0100000000000035"
  by (simp add: Uint64_def test_platform_def upt_8)

lemma rank_of_test_hash: "rank_of 0x0100000000000035 = 8"
  by (simp add: rank_of_def numZeroes_def numZeroes_loop.simps)

theorem Add_effect_witness:
  "valid test_platform fresh16 0 \<and>
   counter_at fresh16 0 = Some (counters fresh16 ! 0) \<and>
   unat (m (counters fresh16 ! 0)) = 2 ^ 4 \<and>
   (\<exists>s'. Add test_platform fresh16 0 [0x35, 0, 0, 0, 0, 0, 0, 0x01] = Inr s' \<and>
         registers s' 0 = (replicate 16 0)[5 := 8] \<and>
         counters s' = counters fresh16)"
proof -
  have v: "valid test_platform fresh16 0"
    by (rule NewCounter_valid(1) [OF NewCounter_16])
  have c: "counter_at fresh16 0 = Some (counters fresh16 ! 0)"
    by (simp add: counter_at_def fresh16_eq)
  have mm: "unat (m (counters fresh16 ! 0)) = 2 ^ 4"
    by (simp add: fresh16_eq)
  have r: "registers fresh16 0 = replicate 16 0"
    by (rule NewCounter_valid(4) [OF NewCounter_16, simplified])
  have "m (counters fresh16 ! 0) = 16"
    by (simp add: fresh16_eq)
  with Add_effect [OF v c mm, of "[0x35, 0, 0, 0, 0, 0, 0, 0x01]"] v c mm show ?thesis
    by (simp add: Let_def test_hash_value rank_of_test_hash r) blast
qed

subsection \<open>Merge\<close>

lemma valid_counter:
  assumes "valid pf s p"
  obtains c where "counter_at s p = Some c"
  using assms by (auto simp add: valid_def split: option.splits)

lemma compatible_sym: "compatible s p q \<Longrightarrow> compatible s q p"
  by (auto simp add: compatible_def split: option.splits)

lemma compatible_trans: "compatible s p q \<Longrightarrow> compatible s q r \<Longrightarrow> compatible s p r"
  by (auto simp add: compatible_def split: option.splits)

lemma compatible_refl: "valid pf s p \<Longrightarrow> compatible s p p"
  by (auto simp add: compatible_def valid_def split: option.splits)

lemma extends_compatible:
  assumes "extends s s'" and "compatible s p q"
  shows "compatible s' p q"
proof -
  from assms(2) obtain c d where c: "counter_at s p = Some c" and d: "counter_at s q = Some d"
    and "m c = m d"
    by (auto simp add: compatible_def split: option.splits)
  with extends_counter_at [OF assms(1) c] extends_counter_at [OF assms(1) d] show ?thesis
    by (simp add: compatible_def)
qed

lemma Merge_mismatch:
  assumes "counter_at s p = Some c" and "counter_at s q = Some d" and "m c \<noteq> m d"
  shows "Merge pf s p q = Inl errMergeCounterMismatch"
  using assms by (auto simp add: Merge_def)

lemma Merge_ok:
  assumes vp: "valid pf s p" and vq: "valid pf s q" and cmp: "compatible s p q"
  shows "\<exists>r s'. Merge pf s p q = Inr (r, s') \<and> counter_at s r = None \<and> extends s s' \<and>
           valid pf s' r \<and> compatible s' p r \<and>
           registers s' r = map2 max (registers s p) (registers s q)"
proof -
  from vp obtain c where cp: "counter_at s p = Some c" by (rule valid_counter)
  from vq obtain d where cq: "counter_at s q = Some d" by (rule valid_counter)
  from cmp have mm: "m d = m c"
    by (simp add: compatible_def cp cq)
  note fc = valid_fields [OF vp cp] and fd = valid_fields [OF vq cq]
  let ?k = "length (slices s)"
  let ?r = "length (counters s)"
  let ?new = "\<lparr>regs = ?k, m = m c, b = b c, alpha = alpha c, hash = hash c, hbuf = Suc ?k\<rparr>"
  let ?regs = "map2 max (slice_at s (regs c)) (slice_at s (regs d))"
  let ?s' = "s\<lparr>slices := slices s @ [?regs, replicate 8 0], counters := counters s @ [?new]\<rparr>"
  have mg: "Merge pf s p q = Inr (?r, ?s')"
    by (rule Merge_valid [OF vp vq cp cq mm])
  have ex: "extends s ?s'"
    by (rule extends_append)
  have fresh: "counter_at s ?r = None"
    by (simp add: counter_at_def)
  have cr: "counter_at ?s' ?r = Some ?new"
    by (simp add: counter_at_def)
  have sr: "slice_at ?s' ?k = ?regs" and sh: "slice_at ?s' (Suc ?k) = replicate 8 0"
    by (simp_all add: slice_at_def nth_append)
  have regs: "registers ?s' ?r = map2 max (registers s p) (registers s q)"
    by (simp add: registers_def cr sr cp cq del: counter_at_slice_put)
  have len: "length ?regs = unat (m c)"
    by (simp add: fc(9) fd(9) mm)
  have al: "alpha_fn (m c) = Inr (alpha c)"
    using vp by (simp add: valid_def cp)
  have vr: "valid pf ?s' ?r"
    unfolding valid_def using fc(2) len
    by (simp only: cr option.case Counter.select_convs sr sh)
      (simp add: fc(1,5) fc(3) [symmetric] al)
  have "counter_at ?s' p = Some c"
    by (rule extends_counter_at [OF ex cp])
  then have cmp': "compatible ?s' p ?r"
    by (simp add: compatible_def cr)
  from mg fresh ex vr cmp' regs show ?thesis
    by blast
qed

lemma map2_max_commute: "map2 max xs ys = map2 max ys (xs :: ('a :: linorder) list)"
  by (induction xs ys rule: list_induct2') (simp_all add: max.commute)

lemma map2_max_assoc:
  "map2 max (map2 max xs ys) zs = map2 max xs (map2 max ys (zs :: ('a :: linorder) list))"
proof (induction xs arbitrary: ys zs)
  case Nil
  show ?case by simp
next
  case (Cons x xs)
  show ?case
  proof (cases ys)
    case Nil
    then show ?thesis by simp
  next
    case ys: (Cons y ys')
    show ?thesis
    proof (cases zs)
      case Nil
      then show ?thesis by simp
    next
      case (Cons z zs')
      with ys Cons.IH [of ys' zs'] show ?thesis
        by (simp add: max.assoc)
    qed
  qed
qed

lemma map2_max_idem: "map2 max xs xs = (xs :: ('a :: linorder) list)"
  by (induction xs) simp_all

lemma alpha_step_16: "alpha_step 16 = 0.673"
  by (simp add: alpha_step_def)

lemma NewCounter_test_16:
  "NewCounter test_platform s 16 =
     Inr (length (counters s),
          s\<lparr>slices := slices s @ [replicate 16 0, replicate 8 0],
            counters := counters s @ [demo_counter (length (slices s))]\<rparr>)"
  by (simp add: NewCounter_ok Log2_uint64_16 alpha_step_16 demo_counter_def)

lemma sha_256_test:
  "sha_256 (Sum256 test_platform) [d0, d1, d2, d3, d4, d5, d6, d7] [x0, x1, x2, x3, x4, x5, x6, x7] =
     Inr ([x0, x1, x2, x3, x4, x5, x6, x7], 7)"
  by (simp add: sha_256_def test_platform_def upt_8)

lemma Uint64_test:
  "Uint64 test_platform [x0, x1, x2, x3, x4, x5, x6, x7] =
     ucast x0 OR push_bit 8 (ucast x1 OR push_bit 8 (ucast x2 OR push_bit 8 (ucast x3 OR
       push_bit 8 (ucast x4 OR push_bit 8 (ucast x5 OR push_bit 8 (ucast x6 OR
         push_bit 8 (ucast x7)))))))"
  by (simp add: Uint64_def test_platform_def)

lemma replicate_16: "replicate 16 x = [x, x, x, x, x, x, x, x, x, x, x, x, x, x, x, x]"
  by (simp add: numeral_eq_Suc)

lemma replicate_8: "replicate 8 x = [x, x, x, x, x, x, x, x]"
  by (simp add: numeral_eq_Suc)

lemma demo_eq:
  "demo = \<lparr>counters = [demo_counter 0, demo_counter 2, demo_counter 4],
            slices = [[0, 0, 0, 0, 0, 8, 0, 0, 0, 0, 0, 0, 0, 0, 0, 0],
                      [0x35, 0, 0, 0, 0, 0, 0, 0x01],
                      [0, 0, 1, 0, 0, 4, 0, 0, 0, 0, 0, 0, 0, 0, 0, 0],
                      [0x02, 0, 0, 0, 0, 0, 0, 0x80],
                      [0, 0, 0, 0, 0, 0, 0, 3, 0, 0, 0, 0, 0, 0, 0, 0],
                      [0x07, 0, 0, 0, 0, 0, 0, 0x20]]\<rparr>"
  by (simp add: demo_def demo_calls_def step_def NewCounter_test_16 empty_store_def
      Add_def counter_at_def slice_at_def slice_put_def slice_get_def slice_set_def
      sha_256_test Uint64_test index_of_def rank_of_def numZeroes_def numZeroes_loop.simps
      replicate_16 replicate_8 demo_counter_def Let_def)

lemma demo_valid:
  "valid test_platform demo 0" "valid test_platform demo (Suc 0)" "valid test_platform demo 2"
  by (simp_all add: valid_def demo_eq counter_at_def slice_at_def demo_counter_def
      Log2_uint64_16 alpha_fn_def)

lemma demo_counter_at:
  "counter_at demo 0 = Some (demo_counter 0)"
  "counter_at demo (Suc 0) = Some (demo_counter 2)"
  "counter_at demo 2 = Some (demo_counter 4)"
  by (simp_all add: demo_eq counter_at_def)

lemma demo_registers:
  "registers demo 0 = [0, 0, 0, 0, 0, 8, 0, 0, 0, 0, 0, 0, 0, 0, 0, 0]"
  "registers demo (Suc 0) = [0, 0, 1, 0, 0, 4, 0, 0, 0, 0, 0, 0, 0, 0, 0, 0]"
  "registers demo 2 = [0, 0, 0, 0, 0, 0, 0, 3, 0, 0, 0, 0, 0, 0, 0, 0]"
  by (simp_all add: registers_def demo_counter_at) (simp_all add: demo_eq slice_at_def demo_counter_def)

lemma demo_compatible: "compatible demo 0 (Suc 0)" "compatible demo (Suc 0) 2"
  by (simp_all add: compatible_def demo_counter_at demo_counter_def)

text \<open>
  C3. For two sketches that satisfy the invariant of construction, \<^verbatim>\<open>Merge\<close> fails with
  \<^verbatim>\<open>errMergeCounterMismatch\<close> exactly when their \<open>m\<close> differ. When they agree, it returns a
  newly allocated sketch with the \<open>m\<close>, \<open>b\<close> and \<open>alpha\<close> of both operands and \<open>m\<close> registers,
  the register at each index being the maximum of the operands' registers at that index.
\<close>

theorem Merge_contract:
  assumes "valid pf s p" and "valid pf s q"
    and "counter_at s p = Some c" and "counter_at s q = Some d"
  shows "(Merge pf s p q = Inl errMergeCounterMismatch \<longleftrightarrow> m c \<noteq> m d) \<and>
         (m c = m d \<longrightarrow>
            (\<exists>r s' e. Merge pf s p q = Inr (r, s') \<and>
               counter_at s r = None \<and> counter_at s' r = Some e \<and>
               m e = m c \<and> b e = b c \<and> alpha e = alpha c \<and>
               m e = m d \<and> b e = b d \<and> alpha e = alpha d \<and>
               length (registers s' r) = unat (m c) \<and>
               (\<forall>i < unat (m c).
                  registers s' r ! i = max (registers s p ! i) (registers s q ! i))))"
proof (cases "m c = m d")
  case False
  with Merge_mismatch [OF assms(3,4) False] show ?thesis
    by simp
next
  case True
  note fc = valid_fields [OF assms(1,3)] and fd = valid_fields [OF assms(2,4)]
  let ?k = "length (slices s)"
  let ?r = "length (counters s)"
  let ?new = "\<lparr>regs = ?k, m = m c, b = b c, alpha = alpha c, hash = hash c, hbuf = Suc ?k\<rparr>"
  let ?regs = "map2 max (slice_at s (regs c)) (slice_at s (regs d))"
  let ?s' = "s\<lparr>slices := slices s @ [?regs, replicate 8 0], counters := counters s @ [?new]\<rparr>"
  have mg: "Merge pf s p q = Inr (?r, ?s')"
    by (rule Merge_valid [OF assms True [symmetric]])
  have fresh: "counter_at s ?r = None"
    by (simp add: counter_at_def)
  have cr: "counter_at ?s' ?r = Some ?new"
    by (simp add: counter_at_def)
  have rp: "registers s p = slice_at s (regs c)" and rq: "registers s q = slice_at s (regs d)"
    by (simp_all add: registers_def assms(3,4))
  have rr: "registers ?s' ?r = ?regs"
    by (simp add: registers_def cr del: counter_at_slice_put) (simp add: slice_at_def nth_append)
  have "length ?regs = unat (m c)"
    by (simp add: fc(9) fd(9) True)
  then have len: "length (registers ?s' ?r) = unat (m c)"
    by (simp only: rr)
  have "\<forall>i < unat (m c). ?regs ! i = max (slice_at s (regs c) ! i) (slice_at s (regs d) ! i)"
    by (simp add: fc(9) fd(9) True)
  then have nth: "\<forall>i < unat (m c). registers ?s' ?r ! i = max (registers s p ! i) (registers s q ! i)"
    by (simp only: rr rp rq)
  have bd: "b d = b c" and ad: "alpha d = alpha c"
    by (simp_all add: fc(3,4) fd(3,4) True)
  have "\<exists>r s' e. Merge pf s p q = Inr (r, s') \<and>
               counter_at s r = None \<and> counter_at s' r = Some e \<and>
               m e = m c \<and> b e = b c \<and> alpha e = alpha c \<and>
               m e = m d \<and> b e = b d \<and> alpha e = alpha d \<and>
               length (registers s' r) = unat (m c) \<and>
               (\<forall>i < unat (m c).
                  registers s' r ! i = max (registers s p ! i) (registers s q ! i))"
    apply (rule exI [of _ ?r])
    apply (rule exI [of _ ?s'])
    apply (rule exI [of _ ?new])
    using mg fresh cr len nth bd ad True
    apply (simp only: Counter.select_convs simp_thms)
    done
  with mg True show ?thesis
    by simp
qed

theorem Merge_contract_witness:
  "valid test_platform demo 0 \<and> valid test_platform demo 1 \<and>
   counter_at demo 0 = Some (demo_counter 0) \<and> counter_at demo 1 = Some (demo_counter 2) \<and>
   m (demo_counter 0) = m (demo_counter 2) \<and>
   (\<exists>r s' e. Merge test_platform demo 0 1 = Inr (r, s') \<and>
       counter_at s' r = Some e \<and> m e = 16 \<and> b e = 4 \<and> alpha e = 0.673 \<and>
       length (registers s' r) = 16 \<and>
       registers s' r ! 2 = 1 \<and> registers s' r ! 5 = 8)"
  using Merge_contract [OF demo_valid(1,2) demo_counter_at(1,2)]
    demo_valid(1,2) demo_counter_at(1,2)
  by (simp add: demo_registers) (auto simp add: demo_counter_def)

text \<open>
  C4. For sketches \<open>p\<close>, \<open>q\<close>, \<open>r\<close> with equal register counts that satisfy the invariant of
  construction, every merge below succeeds, and, reading the registers in the store
  after all merges of a line have run: \<^verbatim>\<open>Merge(p,q)\<close> and \<^verbatim>\<open>Merge(q,p)\<close> have the same
  registers; \<^verbatim>\<open>Merge(Merge(p,q),r)\<close> and \<^verbatim>\<open>Merge(p,Merge(q,r))\<close> have the same registers;
  \<^verbatim>\<open>Merge(p,p)\<close> has the registers of \<open>p\<close>.
\<close>

theorem Merge_algebra:
  assumes vp: "valid pf s p" and vq: "valid pf s q" and vr: "valid pf s r"
    and pq: "compatible s p q" and qr: "compatible s q r"
  shows "(\<exists>x s1 y s2. Merge pf s p q = Inr (x, s1) \<and> Merge pf s1 q p = Inr (y, s2) \<and>
            registers s2 x = registers s2 y) \<and>
         (\<exists>x s1 xr s2 y s3 py s4.
            Merge pf s p q = Inr (x, s1) \<and> Merge pf s1 x r = Inr (xr, s2) \<and>
            Merge pf s2 q r = Inr (y, s3) \<and> Merge pf s3 p y = Inr (py, s4) \<and>
            registers s4 xr = registers s4 py) \<and>
         (\<exists>x s1. Merge pf s p p = Inr (x, s1) \<and> registers s1 x = registers s p \<and>
            registers s1 p = registers s p)"
proof (intro conjI)
  from Merge_ok [OF vp vq pq] obtain x s1 where
    m1: "Merge pf s p q = Inr (x, s1)" and e1: "extends s s1" and vx: "valid pf s1 x"
    and cx: "compatible s1 p x"
    and rx: "registers s1 x = map2 max (registers s p) (registers s q)"
    by blast
  note p1 = extends_valid [OF e1 vp] and q1 = extends_valid [OF e1 vq]
    and r1 = extends_valid [OF e1 vr]
  have pq1: "compatible s1 p q" and qr1: "compatible s1 q r"
    by (rule extends_compatible [OF e1 pq], rule extends_compatible [OF e1 qr])
  show "\<exists>x s1 y s2. Merge pf s p q = Inr (x, s1) \<and> Merge pf s1 q p = Inr (y, s2) \<and>
            registers s2 x = registers s2 y"
  proof -
    from Merge_ok [OF q1(1) p1(1) compatible_sym [OF pq1]] obtain y s2 where
      m2: "Merge pf s1 q p = Inr (y, s2)" and e2: "extends s1 s2"
      and ry: "registers s2 y = map2 max (registers s1 q) (registers s1 p)"
      by blast
    have "registers s2 x = registers s1 x"
      by (rule extends_valid(3) [OF e2 vx])
    also have "\<dots> = map2 max (registers s q) (registers s p)"
      by (simp only: rx map2_max_commute [of "registers s p"])
    also have "\<dots> = registers s2 y"
      by (simp only: ry p1(3) q1(3))
    finally show ?thesis
      using m1 m2 by blast
  qed
  show "\<exists>x s1 xr s2 y s3 py s4.
            Merge pf s p q = Inr (x, s1) \<and> Merge pf s1 x r = Inr (xr, s2) \<and>
            Merge pf s2 q r = Inr (y, s3) \<and> Merge pf s3 p y = Inr (py, s4) \<and>
            registers s4 xr = registers s4 py"
  proof -
    have xr1: "compatible s1 x r"
      by (rule compatible_trans [OF compatible_sym [OF cx]
            compatible_trans [OF pq1 qr1]])
    from Merge_ok [OF vx r1(1) xr1] obtain xr s2 where
      m2: "Merge pf s1 x r = Inr (xr, s2)" and e2: "extends s1 s2" and vxr: "valid pf s2 xr"
      and rxr: "registers s2 xr = map2 max (registers s1 x) (registers s1 r)"
      by blast
    note p2 = extends_valid [OF e2 p1(1)] and q2 = extends_valid [OF e2 q1(1)]
      and r2 = extends_valid [OF e2 r1(1)]
    have pq2: "compatible s2 p q" and qr2: "compatible s2 q r"
      by (rule extends_compatible [OF e2 pq1], rule extends_compatible [OF e2 qr1])
    from Merge_ok [OF q2(1) r2(1) qr2] obtain y s3 where
      m3: "Merge pf s2 q r = Inr (y, s3)" and e3: "extends s2 s3" and vy: "valid pf s3 y"
      and cy: "compatible s3 q y"
      and ry: "registers s3 y = map2 max (registers s2 q) (registers s2 r)"
      by blast
    note p3 = extends_valid [OF e3 p2(1)]
    have py3: "compatible s3 p y"
      by (rule compatible_trans [OF extends_compatible [OF e3 pq2] cy])
    from Merge_ok [OF p3(1) vy py3] obtain py s4 where
      m4: "Merge pf s3 p y = Inr (py, s4)" and e4: "extends s3 s4"
      and rpy: "registers s4 py = map2 max (registers s3 p) (registers s3 y)"
      by blast
    have "registers s4 xr = registers s2 xr"
      by (rule extends_valid(3) [OF extends_trans [OF e3 e4] vxr])
    also have "\<dots> = map2 max (map2 max (registers s p) (registers s q)) (registers s r)"
      by (simp only: rxr rx r1(3))
    also have "\<dots> = map2 max (registers s p) (map2 max (registers s q) (registers s r))"
      by (rule map2_max_assoc)
    also have "\<dots> = registers s4 py"
      by (simp only: rpy ry p3(3) p2(3) p1(3) q2(3) q1(3) r2(3) r1(3))
    finally show ?thesis
      using m1 m2 m3 m4 by blast
  qed
  show "\<exists>x s1. Merge pf s p p = Inr (x, s1) \<and> registers s1 x = registers s p \<and>
            registers s1 p = registers s p"
  proof -
    from Merge_ok [OF vp vp compatible_refl [OF vp]] obtain x s1 where
      m1: "Merge pf s p p = Inr (x, s1)" and e1: "extends s s1"
      and rx: "registers s1 x = map2 max (registers s p) (registers s p)"
      by blast
    have "registers s1 x = registers s p"
      by (simp only: rx map2_max_idem)
    moreover have "registers s1 p = registers s p"
      by (rule extends_valid(3) [OF e1 vp])
    ultimately show ?thesis
      using m1 by blast
  qed
qed

theorem Merge_algebra_witness:
  "valid test_platform demo 0 \<and> valid test_platform demo 1 \<and> valid test_platform demo 2 \<and>
   compatible demo 0 1 \<and> compatible demo 1 2 \<and>
   (\<exists>x s1 y s2. Merge test_platform demo 0 1 = Inr (x, s1) \<and>
       Merge test_platform s1 1 0 = Inr (y, s2) \<and> registers s2 x = registers s2 y) \<and>
   (\<exists>x s1 xr s2 y s3 py s4.
       Merge test_platform demo 0 1 = Inr (x, s1) \<and> Merge test_platform s1 x 2 = Inr (xr, s2) \<and>
       Merge test_platform s2 1 2 = Inr (y, s3) \<and> Merge test_platform s3 0 y = Inr (py, s4) \<and>
       registers s4 xr = registers s4 py) \<and>
   (\<exists>x s1. Merge test_platform demo 0 0 = Inr (x, s1) \<and>
       registers s1 x = [0, 0, 0, 0, 0, 8, 0, 0, 0, 0, 0, 0, 0, 0, 0, 0])"
  using Merge_algebra [OF demo_valid demo_compatible] demo_valid demo_compatible
  by (simp add: demo_registers) blast

text \<open>
  C8. A successful \<^verbatim>\<open>Merge\<close> of two sketches that satisfy the invariant of construction
  leaves both operands as they were: their structs (all fields, the hash function
  included) and the contents of their register arrays and scratch buffers are the same
  in the store after the call. Indeed the whole old store is a prefix of the new one, and
  the result is a new struct whose two arrays did not exist before.
\<close>

theorem Merge_frame:
  assumes "valid pf s p" and "valid pf s q"
    and "counter_at s p = Some c" and "counter_at s q = Some d"
    and "Merge pf s p q = Inr (r, s')"
  shows "counter_at s' p = Some c \<and> counter_at s' q = Some d \<and>
         slice_at s' (regs c) = slice_at s (regs c) \<and>
         slice_at s' (hbuf c) = slice_at s (hbuf c) \<and>
         slice_at s' (regs d) = slice_at s (regs d) \<and>
         slice_at s' (hbuf d) = slice_at s (hbuf d) \<and>
         extends s s' \<and>
         (\<exists>e. counter_at s r = None \<and> counter_at s' r = Some e \<and>
              length (slices s) \<le> regs e \<and> length (slices s) \<le> hbuf e \<and>
              regs e < length (slices s') \<and> hbuf e < length (slices s'))"
proof -
  have mm: "m d = m c"
  proof (rule ccontr)
    assume "m d \<noteq> m c"
    then have "m c \<noteq> m d" by simp
    from Merge_mismatch [OF assms(3,4) this] assms(5) show False
      by simp
  qed
  note fc = valid_fields [OF assms(1,3)] and fd = valid_fields [OF assms(2,4)]
  let ?k = "length (slices s)"
  let ?new = "\<lparr>regs = ?k, m = m c, b = b c, alpha = alpha c, hash = hash c, hbuf = Suc ?k\<rparr>"
  let ?regs = "map2 max (slice_at s (regs c)) (slice_at s (regs d))"
  from assms(5) have r: "r = length (counters s)"
    and s': "s' = s\<lparr>slices := slices s @ [?regs, replicate 8 0],
                     counters := counters s @ [?new]\<rparr>"
    by (simp_all add: Merge_valid [OF assms(1,2,3,4) mm])
  have ex: "extends s s'"
    unfolding s' by (rule extends_append)
  have "counter_at s r = None" "counter_at s' r = Some ?new"
    by (simp_all add: counter_at_def r s')
  moreover have "length (slices s') = Suc (Suc ?k)"
    by (simp add: s')
  ultimately have new: "\<exists>e. counter_at s r = None \<and> counter_at s' r = Some e \<and>
              length (slices s) \<le> regs e \<and> length (slices s) \<le> hbuf e \<and>
              regs e < length (slices s') \<and> hbuf e < length (slices s')"
    by simp
  from extends_counter_at [OF ex assms(3)] extends_counter_at [OF ex assms(4)]
    extends_slice_at [OF ex fc(6)] extends_slice_at [OF ex fc(7)]
    extends_slice_at [OF ex fd(6)] extends_slice_at [OF ex fd(7)] ex new
  show ?thesis
    by blast
qed

theorem Merge_frame_witness:
  "valid test_platform demo 0 \<and> valid test_platform demo 1 \<and>
   counter_at demo 0 = Some (demo_counter 0) \<and> counter_at demo 1 = Some (demo_counter 2) \<and>
   (\<exists>r s'. Merge test_platform demo 0 1 = Inr (r, s') \<and>
      counter_at s' 0 = Some (demo_counter 0) \<and> counter_at s' 1 = Some (demo_counter 2) \<and>
      slice_at s' 0 = [0, 0, 0, 0, 0, 8, 0, 0, 0, 0, 0, 0, 0, 0, 0, 0] \<and>
      slice_at s' 2 = [0, 0, 1, 0, 0, 4, 0, 0, 0, 0, 0, 0, 0, 0, 0, 0] \<and>
      extends demo s')"
proof -
  from Merge_ok [OF demo_valid(1,2) demo_compatible(1)] obtain r s'
    where mg: "Merge test_platform demo 0 (Suc 0) = Inr (r, s')"
    by blast
  from Merge_frame [OF demo_valid(1,2) demo_counter_at(1,2) mg]
  have "counter_at s' 0 = Some (demo_counter 0) \<and> counter_at s' (Suc 0) = Some (demo_counter 2) \<and>
      slice_at s' 0 = slice_at demo 0 \<and> slice_at s' 2 = slice_at demo 2 \<and> extends demo s'"
    by (simp add: demo_counter_def)
  moreover have "slice_at demo 0 = [0, 0, 0, 0, 0, 8, 0, 0, 0, 0, 0, 0, 0, 0, 0, 0]"
    "slice_at demo 2 = [0, 0, 1, 0, 0, 4, 0, 0, 0, 0, 0, 0, 0, 0, 0, 0]"
    by (simp_all add: demo_eq slice_at_def)
  ultimately show ?thesis
    using mg demo_valid(1,2) demo_counter_at(1,2) by auto
qed

subsection \<open>Structs are never written after construction\<close>

lemma keeps_counters_refl: "keeps_counters s s"
  by (simp add: keeps_counters_def)

lemma keeps_counters_trans:
  assumes "keeps_counters s s'" and "keeps_counters s' s''"
  shows "keeps_counters s s''"
proof -
  from assms have le: "length (counters s) \<le> length (counters s')"
      "length (counters s') \<le> length (counters s'')"
    and tk: "take (length (counters s)) (counters s') = counters s"
      "take (length (counters s')) (counters s'') = counters s'"
    by (simp_all add: keeps_counters_def)
  have "take (length (counters s)) (counters s'') = counters s"
    by (rule take_take_le [OF le(1) tk(2) tk(1)])
  with le show ?thesis
    by (simp add: keeps_counters_def)
qed

lemma keeps_counters_counter_at:
  assumes "keeps_counters s s'" and "counter_at s p = Some c"
  shows "counter_at s' p = Some c"
proof -
  from assms(2) have p: "p < length (counters s)" and c: "counters s ! p = c"
    by (simp_all add: counter_at_def split: if_splits)
  from assms(1) have le: "length (counters s) \<le> length (counters s')"
    and tk: "take (length (counters s)) (counters s') = counters s"
    by (simp_all add: keeps_counters_def)
  have "counters s' ! p = counters s ! p"
    using p nth_take [of p "length (counters s)" "counters s'"] by (simp add: tk)
  with p le c show ?thesis
    by (simp add: counter_at_def)
qed

lemma slice_set_counters: "slice_set s a i x = Inr s' \<Longrightarrow> counters s' = counters s"
  by (auto simp add: slice_set_def split: if_splits)

lemma Add_counters: "Add pf s p inp = Inr s' \<Longrightarrow> counters s' = counters s"
  by (auto simp add: Add_def Let_def dest!: slice_set_counters
      split: option.splits sum.splits prod.splits if_splits)

lemma merge_loop_counters:
  "merge_loop s cr orr mr i n = Inr s' \<Longrightarrow> counters s' = counters s"
proof (induction s cr orr mr i n rule: merge_loop.induct)
  case (1 s cr orr mr i n)
  show ?case
  proof (cases "i < n")
    case False
    with "1.prems" show ?thesis
      by (subst (asm) merge_loop.simps) simp
  next
    case True
    from "1.prems" True obtain reg oreg s1 where
      g1: "slice_get s cr i = Inr reg" and g2: "slice_get s orr i = Inr oreg"
      and st: "slice_set s mr i (max reg oreg) = Inr s1"
      and rest: "merge_loop s1 cr orr mr (Suc i) n = Inr s'"
      by (subst (asm) merge_loop.simps) (auto split: sum.splits)
    from "1.IH" [OF True g1 g2 st rest] slice_set_counters [OF st] show ?thesis
      by simp
  qed
qed

lemma NewCounter_counters:
  assumes "NewCounter pf s n = Inr (p, s')"
  shows "keeps_counters s s'"
proof -
  from assms have n: "\<not> n < 16"
    by (auto simp add: NewCounter_def minNumRegisters_def split: if_splits)
  from assms show ?thesis
    by (auto simp add: NewCounter_ok [OF n] keeps_counters_def)
qed

lemma Merge_counters:
  assumes "Merge pf s p q = Inr (r, s')"
  shows "keeps_counters s s'"
  using assms
  by (auto simp add: Merge_def keeps_counters_def
      split: option.splits sum.splits if_splits
      dest!: NewCounter_counters merge_loop_counters)

lemma step_counters:
  assumes "step pf s k = Inr s'"
  shows "keeps_counters s s'"
proof (cases k)
  case (CallNew n)
  with assms NewCounter_counters [of pf s n] show ?thesis
    by (auto simp add: step_def recover_def keeps_counters_refl split: sum.splits if_splits)
next
  case (CallAdd p x)
  with assms Add_counters [of pf s p x s'] show ?thesis
    by (simp add: step_def keeps_counters_def)
next
  case (CallCount p)
  with assms show ?thesis
    by (auto simp add: step_def keeps_counters_refl split: sum.splits)
next
  case (CallMerge p q)
  with assms Merge_counters [of pf s p q] show ?thesis
    by (auto simp add: step_def recover_def keeps_counters_refl split: sum.splits if_splits)
next
  case (CallError p)
  with assms show ?thesis
    by (auto simp add: step_def keeps_counters_refl split: sum.splits)
qed

lemma run_counters: "run pf s ks = Inr s' \<Longrightarrow> keeps_counters s s'"
proof (induction ks arbitrary: s)
  case Nil
  then show ?case by (simp add: keeps_counters_refl)
next
  case (Cons k ks)
  from Cons.prems obtain s1 where st: "step pf s k = Inr s1" and rest: "run pf s1 ks = Inr s'"
    by (auto split: sum.splits)
  from keeps_counters_trans [OF step_counters [OF st] Cons.IH [OF rest]] show ?case .
qed

lemma run_on_sketch:
  assumes "valid pf s p" and "list_all (on_sketch p) ks"
  shows "\<exists>s'. run pf s ks = Inr s' \<and> valid pf s' p"
  using assms
proof (induction ks arbitrary: s)
  case Nil
  then show ?case by simp
next
  case (Cons k ks)
  from Cons.prems(1) obtain c where c: "counter_at s p = Some c"
    by (rule valid_counter)
  from Cons.prems(2) have k: "on_sketch p k" and ks: "list_all (on_sketch p) ks"
    by simp_all
  show ?case
  proof (cases k)
    case (CallAdd q x)
    with k have q: "q = p" by simp
    from Add_valid [OF Cons.prems(1) c, of x] obtain s1 where a: "Add pf s p x = Inr s1"
      by (simp add: Let_def)
    from Cons.IH [OF Add_preserves_valid(1) [OF Cons.prems(1) a] ks] a show ?thesis
      by (simp add: CallAdd q step_def)
  next
    case (CallCount q)
    with k have q: "q = p" by simp
    from Cons.IH [OF Cons.prems(1) ks] Count_valid [OF Cons.prems(1) c] show ?thesis
      by (simp add: CallCount q step_def)
  next
    case (CallNew n)
    with k show ?thesis by simp
  next
    case (CallMerge q r)
    with k show ?thesis by simp
  next
    case (CallError q)
    with k show ?thesis by simp
  qed
qed

text \<open>
  C9. For a sketch that satisfies the invariant of construction, \<^verbatim>\<open>Error\<close> returns
  \<open>1.04 * sqrt m\<close>. The value depends on \<open>m\<close> alone (any sketch in any store with the same
  \<open>m\<close> gives the same value), every sequence of \<^verbatim>\<open>Add\<close> and \<^verbatim>\<open>Count\<close> calls on the sketch
  runs to completion, and after any sequence of calls of the package that runs to
  completion \<^verbatim>\<open>Error\<close> returns what it returned before.
\<close>

theorem Error_formula:
  assumes "valid pf s p" and "counter_at s p = Some c"
  shows "Error s p = Inr (1.04 * sqrt (real (unat (m c)))) \<and>
         (\<forall>t q d. counter_at t q = Some d \<and> m d = m c \<longrightarrow> Error t q = Error s p) \<and>
         (\<forall>ks. list_all (on_sketch p) ks \<longrightarrow> (\<exists>s'. run pf s ks = Inr s')) \<and>
         (\<forall>ks s'. run pf s ks = Inr s' \<longrightarrow> Error s' p = Error s p)"
proof (intro conjI allI impI)
  show "Error s p = Inr (1.04 * sqrt (real (unat (m c))))"
    by (simp add: Error_def assms(2))
next
  fix t q d
  assume "counter_at t q = Some d \<and> m d = m c"
  then show "Error t q = Error s p"
    by (simp add: Error_def assms(2))
next
  fix ks
  assume "list_all (on_sketch p) ks"
  from run_on_sketch [OF assms(1) this] show "\<exists>s'. run pf s ks = Inr s'"
    by blast
next
  fix ks s'
  assume "run pf s ks = Inr s'"
  from keeps_counters_counter_at [OF run_counters [OF this] assms(2)]
  show "Error s' p = Error s p"
    by (simp add: Error_def assms(2))
qed

theorem Error_formula_witness:
  "valid test_platform fresh16 0 \<and> counter_at fresh16 0 = Some (demo_counter 0) \<and>
   Error fresh16 0 = Inr (104 / 25) \<and>
   list_all (on_sketch 0) [CallAdd 0 [0x35, 0, 0, 0, 0, 0, 0, 0x01], CallCount 0] \<and>
   (\<exists>s'. run test_platform fresh16 [CallAdd 0 [0x35, 0, 0, 0, 0, 0, 0, 0x01], CallCount 0] = Inr s' \<and>
         Error s' 0 = Inr (104 / 25))"
proof -
  have v: "valid test_platform fresh16 0"
    by (rule NewCounter_valid(1) [OF NewCounter_16])
  have c: "counter_at fresh16 0 = Some (demo_counter 0)"
    by (simp add: counter_at_def fresh16_eq demo_counter_def)
  have l: "list_all (on_sketch 0) [CallAdd 0 [0x35, 0, 0, 0, 0, 0, 0, 0x01], CallCount 0]"
    by simp
  have sq: "sqrt 16 = 4"
    using real_sqrt_abs [of 4] by simp
  note e = Error_formula [OF v c]
  from e have e1: "Error fresh16 0 = Inr (104 / 25)"
    by (simp add: demo_counter_def sq)
  from e l obtain s' where
    r: "run test_platform fresh16 [CallAdd 0 [0x35, 0, 0, 0, 0, 0, 0, 0x01], CallCount 0] = Inr s'"
    by blast
  with e e1 have "Error s' 0 = Inr (104 / 25)"
    by metis
  with v c e1 l r show ?thesis
    by blast
qed

subsection \<open>The estimate of a fresh sketch and of any valid sketch\<close>

text \<open>
  C1. The property is that a sketch fresh from \<^verbatim>\<open>NewCounter\<close>, all registers zero, has
  \<^verbatim>\<open>Count() == 0\<close>, by the small-range correction with \<open>V = m\<close>. The code returns something
  else: the raw estimate of a fresh sketch is \<open>alpha * m\<close>, which is not below \<open>(2/5) * m\<close>,
  so the small-range correction is skipped and \<^verbatim>\<open>Count\<close> returns \<open>alpha * m\<close> (its large-range
  correction when \<open>alpha * m\<close> exceeds \<open>2^32 / 30\<close>). That number is positive for every
  register count; for 16 registers it is 10.768.
\<close>

theorem Count_fresh_positive:
  assumes "NewCounter pf s n = Inr (p, s')"
  shows "\<exists>e. Count s' p = Inr e \<and> 0 < e \<and>
           e = (if alpha_step (unat n) * real (unat n) > (1 / 30) * 2 ^ 32
                then - (2 ^ 32) * log 10 (1 - alpha_step (unat n) * real (unat n) / 2 ^ 32)
                else alpha_step (unat n) * real (unat n))"
proof -
  from assms have n: "\<not> n < 16"
    by (auto simp add: NewCounter_def minNumRegisters_def split: if_splits)
  then have n16: "16 \<le> unat n"
    by (simp add: word_less_nat_alt)
  have n32: "unat n < 2 ^ 32"
    using unsigned_less [of n, where 'a = nat] by simp
  let ?c = "\<lparr>regs = length (slices s), m = ucast n, b = Log2_uint64 n,
              alpha = alpha_step (unat n), hash = sha_256 (Sum256 pf),
              hbuf = Suc (length (slices s))\<rparr>"
  from assms have c: "counter_at s' p = Some ?c"
    by (auto simp add: NewCounter_ok [OF n] counter_at_def)
  have "Count s' p = Inr (Count_spec (alpha ?c) (unat (m ?c)) (registers s' p))"
    by (rule Count_valid [OF NewCounter_valid(1) [OF assms] c])
  then have "Count s' p =
      Inr (Count_spec (alpha_step (unat n)) (unat n) (replicate (unat n) 0))"
    by (simp add: NewCounter_valid(4) [OF assms] unat_ucast_up)
  with Count_spec_fresh [OF n16] fresh_estimate_pos [OF n16 n32] show ?thesis
    by simp
qed

theorem Count_fresh_positive_witness:
  "NewCounter test_platform empty_store 16 = Inr (0, fresh16) \<and>
   Count fresh16 0 = Inr (1346 / 125) \<and> Count fresh16 0 \<noteq> Inr 0"
  using Count_fresh_positive [OF NewCounter_16]
  by (auto simp add: NewCounter_16 alpha_step_16)

subsection \<open>The raw estimate in float64 arithmetic\<close>

text \<open>
  With rounding the sum of the powers of two lies between \<open>0.99 * 2^-255\<close> and
  \<open>1.01 * m\<close> (no register is above 255, and no power of two above 1), so the raw
  estimate of a sketch with 16 to \<open>2^32 - 1\<close> registers and \<open>alpha\<close> from 0.67 is a number
  above the rounded \<open>(2/5) * m\<close>: the first test of \<^verbatim>\<open>correction\<close> fails in \<^verbatim>\<open>float64\<close>
  arithmetic as it does in exact arithmetic.
\<close>

lemma range_facts:
  "min_normal \<le> 2 powr (- 256)" "(2::real) ^ 53 \<le> max_range" "0 < min_normal"
  "min_normal \<le> 1" "(2::real) ^ 330 \<le> max_range"
proof -
  show "min_normal \<le> 2 powr (- 256)"
    unfolding min_normal_def by (rule powr_mono) simp_all
  show "(2::real) ^ 53 \<le> max_range"
    unfolding max_range_def by (rule power_increasing) simp_all
  show "0 < min_normal"
    by (simp add: min_normal_def)
  have "min_normal \<le> 2 powr 0"
    unfolding min_normal_def by (rule powr_mono) simp_all
  then show "min_normal \<le> 1" by simp
  show "(2::real) ^ 330 \<le> max_range"
    unfolding max_range_def by (rule power_increasing) simp_all
qed

lemma rnd_pos:
  assumes "ieee_rounding r" and "min_normal \<le> x" and "x \<le> max_range"
  shows "\<exists>y. r x = Num y \<and> (99 / 100) * x \<le> y \<and> y \<le> (101 / 100) * x"
proof -
  have x0: "0 < x"
    using assms(2) range_facts(3) by linarith
  then have ax: "\<bar>x\<bar> = x" by simp
  from assms obtain y where y: "r x = Num y" and e: "\<bar>y - x\<bar> \<le> \<bar>x\<bar> / 2 ^ 53"
    unfolding ieee_rounding_def ax by (metis ax)
  have "x / 2 ^ 53 \<le> x / 100"
    using x0 by (intro divide_left_mono) simp_all
  with e ax have "\<bar>y - x\<bar> \<le> x / 100" by linarith
  then have "y - x \<le> x / 100" and "x - y \<le> x / 100"
    by linarith+
  then have "(99 / 100) * x \<le> y \<and> y \<le> (101 / 100) * x"
    by (simp add: field_simps)
  with y show ?thesis by blast
qed

lemma rnd_nat:
  assumes "ieee_rounding r" and "k \<le> 2 ^ 53"
  shows "r (real k) = Num (real k)"
  using assms by (simp add: ieee_rounding_def)

lemma rnd_mono:
  assumes "ieee_rounding r" and "x \<le> y" and "r x = Num x'" and "r y = Num y'"
  shows "x' \<le> y'"
  using assms unfolding ieee_rounding_def by blast


lemma pow2_term:
  fixes reg :: byte
  assumes "pow2_exact fp"
  shows "math_Pow fp (Num 2) (fneg (of_uint8 reg)) = Num (2 powr (- real (unat reg)))"
    and "2 powr (- 255) \<le> (2 :: real) powr (- real (unat reg))"
    and "(2 :: real) powr (- real (unat reg)) \<le> 1"
proof -
  have "unat reg < 2 ^ 8"
    using unsigned_less [of reg, where 'a = nat] by simp
  then have le: "unat reg \<le> 255" by simp
  with assms show "math_Pow fp (Num 2) (fneg (of_uint8 reg)) = Num (2 powr (- real (unat reg)))"
    by (simp add: pow2_exact_def of_uint8_def)
  from le have "real (unat reg) \<le> 255" by simp
  then show "2 powr (- 255) \<le> (2 :: real) powr (- real (unat reg))"
    by (intro powr_mono) simp_all
  have "(2 :: real) powr (- real (unat reg)) \<le> 2 powr 0"
    by (rule powr_mono) simp_all
  then show "(2 :: real) powr (- real (unat reg)) \<le> 1" by simp
qed

lemma powr_255_256: "(2 :: real) powr (- 255) = 2 * 2 powr (- 256)"
proof -
  have "(2 :: real) powr (- 255) = 2 powr (1 + (- 256))" by simp
  also have "\<dots> = 2 powr 1 * 2 powr (- 256)" by (rule powr_add)
  finally show ?thesis by simp
qed

lemma fsum_bounds:
  fixes rs :: "byte list"
  assumes I: "ieee_rounding (rnd fp)" and P: "pow2_exact fp"
    and "0 \<le> a" and "a \<le> real j" and "j + length rs \<le> 2 ^ 53"
  shows "\<exists>y. foldl (\<lambda>z reg. fadd fp z (math_Pow fp (Num 2) (fneg (of_uint8 reg)))) (Num a) rs = Num y \<and>
             y \<le> real (j + length rs) \<and> (rs \<noteq> [] \<longrightarrow> 2 powr (- 256) \<le> y) \<and>
             (rs = [] \<longrightarrow> y = a)"
  using assms(3-)
proof (induction rs arbitrary: a j)
  case Nil
  then show ?case by simp
next
  case (Cons reg rs)
  let ?t = "(2 :: real) powr (- real (unat reg))"
  note t = pow2_term [OF P, of reg]
  have x_lo: "2 powr (- 255) \<le> a + ?t"
    using t(2) Cons.prems(1) by linarith
  have "(0::real) \<le> 2 powr (- 256)" by simp
  with range_facts(1) have "min_normal \<le> 2 * 2 powr (- 256)" by linarith
  then have "min_normal \<le> 2 powr (- 255)"
    by (simp only: powr_255_256)
  with x_lo have lo: "min_normal \<le> a + ?t" by linarith
  have x_hi: "a + ?t \<le> real (Suc j)"
    using t(3) Cons.prems(2) by simp
  have sj: "Suc j \<le> 2 ^ 53"
    using Cons.prems(3) by simp
  then have "real (Suc j) \<le> 2 ^ 53"
    by (metis of_nat_le_iff of_nat_numeral of_nat_power)
  with x_hi range_facts(2) have hi: "a + ?t \<le> max_range" by linarith
  from rnd_pos [OF I lo hi] obtain y1 where
    y1: "rnd fp (a + ?t) = Num y1" and y1_lo: "(99 / 100) * (a + ?t) \<le> y1"
    by blast
  have y1_hi: "y1 \<le> real (Suc j)"
    by (rule rnd_mono [OF I x_hi y1 rnd_nat [OF I sj]])
  have "(99 / 100) * (2 * 2 powr (- 256)) \<le> (99 / 100) * (a + ?t)"
    using x_lo by (simp add: powr_255_256)
  moreover have "(0::real) \<le> 2 powr (- 256)" by simp
  ultimately have y1_L: "2 powr (- 256) \<le> y1"
    using y1_lo by linarith
  then have y1_0: "0 \<le> y1"
    using \<open>(0::real) \<le> 2 powr (- 256)\<close> by linarith
  have len: "Suc j + length rs \<le> 2 ^ 53"
    using Cons.prems(3) by simp
  from Cons.IH [OF y1_0 y1_hi len] obtain y where
    y: "foldl (\<lambda>z reg. fadd fp z (math_Pow fp (Num 2) (fneg (of_uint8 reg)))) (Num y1) rs = Num y"
    and y_hi: "y \<le> real (Suc j + length rs)"
    and y_lo: "rs \<noteq> [] \<longrightarrow> 2 powr (- 256) \<le> y" and y_eq: "rs = [] \<longrightarrow> y = y1"
    by blast
  have "2 powr (- 256) \<le> y"
    using y_lo y_eq y1_L by (cases "rs = []") simp_all
  with y y_hi show ?case
    by (simp add: t(1) y1)
qed

lemma fcount_zero:
  fixes rs :: "byte list"
  assumes I: "ieee_rounding (rnd fp)" and "k + length rs \<le> 2 ^ 53"
  shows "foldl (\<lambda>v reg. if reg = 0 then fadd fp v (Num 1) else v) (Num (real k)) rs =
           Num (real (k + length (filter (\<lambda>reg. reg = 0) rs)))"
  using assms(2)
proof (induction rs arbitrary: k)
  case Nil
  show ?case by simp
next
  case (Cons reg rs)
  show ?case
  proof (cases "reg = 0")
    case True
    have "Suc k \<le> 2 ^ 53" using Cons.prems by simp
    from rnd_nat [OF I this] have "fadd fp (Num (real k)) (Num 1) = Num (real (Suc k))"
      by (simp add: add.commute)
    moreover have "Suc k + length rs \<le> 2 ^ 53" using Cons.prems by simp
    ultimately show ?thesis
      using Cons.IH [of "Suc k"] True by simp
  next
    case False
    have "k + length rs \<le> 2 ^ 53" using Cons.prems by simp
    with Cons.IH [of k] False show ?thesis by simp
  qed
qed


lemma powr_m256: "(2 :: real) powr (- 256) = 1 / 2 ^ 256"
proof -
  have "(2 :: real) powr (- 256) = 1 / 2 powr 256"
    by (simp add: powr_minus_divide)
  also have "(2 :: real) powr 256 = 2 ^ 256"
    by simp
  finally show ?thesis .
qed

lemma min_normal_le_inv: "min_normal \<le> 1 / 2 ^ 32"
proof -
  have "min_normal \<le> 2 powr (- 32)"
    unfolding min_normal_def by (rule powr_mono) simp_all
  also have "(2 :: real) powr (- 32) = 1 / 2 powr 32"
    by (simp add: powr_minus_divide)
  also have "(2 :: real) powr 32 = 2 ^ 32"
    by simp
  finally show ?thesis .
qed

lemma real_less_2p32: "n < 2 ^ 32 \<Longrightarrow> real n < 2 ^ 32"
  by (metis of_nat_less_iff of_nat_numeral of_nat_power)

lemma raw_estimate_float64:
  fixes rs :: "byte list"
  assumes I: "ieee_rounding (rnd fp)" and P: "pow2_exact fp"
    and n16: "16 \<le> n" and n32: "n < 2 ^ 32" and len: "length rs = n"
    and a_lo: "67 / 100 \<le> a" and a_hi: "a \<le> 1"
  shows "\<exists>ev t. fmul fp (fmul fp (Num a) (rnd fp ((real n)\<^sup>2)))
                  (fdiv fp (Num 1)
                     (foldl (\<lambda>z reg. fadd fp z (math_Pow fp (Num 2) (fneg (of_uint8 reg)))) (Num 0) rs))
                = Num ev \<and>
              fmul fp (rnd fp (2 / 5)) (Num (real n)) = Num t \<and> t < ev"
proof -
  let ?n = "real n"
  have n_pos: "0 < ?n" and n_16: "16 \<le> ?n" using n16 by simp_all
  have n_hi: "?n \<le> 2 ^ 32" using real_less_2p32 [OF n32] by simp
  have maxr: "(2::real) ^ 330 \<le> max_range" by (rule range_facts(5))
  have minr: "min_normal \<le> 1" by (rule range_facts(4))
  \<comment> \<open>the sum\<close>
  have "0 + length rs \<le> (2::nat) ^ 53"
  proof -
    have "n \<le> (2::nat) ^ 32" using n32 by simp
    also have "(2::nat) ^ 32 \<le> 2 ^ 53" by (rule power_increasing) simp_all
    finally show ?thesis by (simp add: len)
  qed
  with fsum_bounds [OF I P, where a = 0 and j = 0 and rs = rs] len n16 obtain sv where
    S: "foldl (\<lambda>z reg. fadd fp z (math_Pow fp (Num 2) (fneg (of_uint8 reg)))) (Num 0) rs = Num sv"
    and sv_hi: "sv \<le> ?n" and sv_lo: "2 powr (- 256) \<le> sv"
    by auto
  have sv_pos: "0 < sv"
  proof -
    have "(0::real) < 2 powr (- 256)" by simp
    with sv_lo show ?thesis by linarith
  qed
  \<comment> \<open>its inverse\<close>
  have inv_lo: "1 / ?n \<le> 1 / sv"
    using sv_hi sv_pos by (intro divide_left_mono) simp_all
  have inv_hi: "1 / sv \<le> 2 ^ 256"
  proof -
    have "1 / sv \<le> 1 / (1 / 2 ^ 256)"
      using sv_lo sv_pos by (intro divide_left_mono) (simp_all add: powr_m256)
    then show ?thesis by simp
  qed
  have "1 / 2 ^ 32 \<le> 1 / ?n"
    using n_hi n_pos by (intro divide_left_mono) simp_all
  with min_normal_le_inv inv_lo have r1: "min_normal \<le> 1 / sv" by linarith
  have "(2::real) ^ 256 \<le> 2 ^ 330" by (rule power_increasing) simp_all
  with inv_hi maxr have r2: "1 / sv \<le> max_range" by linarith
  from rnd_pos [OF I r1 r2] obtain zv where
    Z: "rnd fp (1 / sv) = Num zv" and zv_lo: "(99 / 100) * (1 / sv) \<le> zv"
    and zv_hi: "zv \<le> (101 / 100) * (1 / sv)"
    by blast
  have fd: "fdiv fp (Num 1) (Num sv) = Num zv"
    using sv_pos Z by simp
  have zv_lo': "(99 / 100) / ?n \<le> zv"
  proof -
    have "(99 / 100) * (1 / ?n) \<le> (99 / 100) * (1 / sv)"
      using inv_lo by (intro mult_left_mono) simp_all
    with zv_lo show ?thesis by simp
  qed
  have zv_hi': "zv \<le> 2 ^ 257"
  proof -
    have "(101 / 100) * (1 / sv) \<le> (101 / 100) * 2 ^ 256"
      using inv_hi by (intro mult_left_mono) simp_all
    with zv_hi show ?thesis by simp
  qed
  have zv_pos: "0 < zv"
  proof -
    have "0 < (99 / 100) / ?n" using n_pos by simp
    with zv_lo' show ?thesis by linarith
  qed
  \<comment> \<open>the square of m\<close>
  have sq_lo: "256 \<le> ?n\<^sup>2"
  proof -
    have "16 * 16 \<le> ?n * ?n"
      using n_16 by (intro mult_mono) simp_all
    then show ?thesis by (simp add: power2_eq_square)
  qed
  have sq_hi: "?n\<^sup>2 \<le> 2 ^ 64"
  proof -
    have "?n * ?n \<le> 2 ^ 32 * 2 ^ 32"
      using n_hi n_pos by (intro mult_mono) simp_all
    then show ?thesis by (simp add: power2_eq_square)
  qed
  have "(2::real) ^ 64 \<le> 2 ^ 330" by (rule power_increasing) simp_all
  with sq_hi maxr have r4: "?n\<^sup>2 \<le> max_range" by linarith
  from sq_lo minr have r3: "min_normal \<le> ?n\<^sup>2" by linarith
  from rnd_pos [OF I r3 r4] obtain q where
    Q: "rnd fp (?n\<^sup>2) = Num q" and q_lo: "(99 / 100) * ?n\<^sup>2 \<le> q"
    and q_hi: "q \<le> (101 / 100) * ?n\<^sup>2"
    by blast
  have q_pos: "0 < q" using q_lo sq_lo by linarith
  have q_hi': "q \<le> 2 ^ 65" using q_hi sq_hi by simp
  \<comment> \<open>alpha times the square\<close>
  have aq_lo: "(66 / 100) * ?n\<^sup>2 \<le> a * q"
  proof -
    have "(67 / 100) * ((99 / 100) * ?n\<^sup>2) \<le> a * q"
      using a_lo q_lo by (intro mult_mono) simp_all
    moreover have "(66 / 100) * ?n\<^sup>2 \<le> (67 / 100) * ((99 / 100) * ?n\<^sup>2)"
      by simp
    ultimately show ?thesis by linarith
  qed
  have aq_hi: "a * q \<le> 2 ^ 65"
  proof -
    have "a * q \<le> 1 * q"
      using a_hi q_pos by (intro mult_right_mono) simp_all
    with q_hi' show ?thesis by simp
  qed
  have r5: "min_normal \<le> a * q" using aq_lo sq_lo minr by linarith
  have "(2::real) ^ 65 \<le> 2 ^ 330" by (rule power_increasing) simp_all
  with aq_hi maxr have r6: "a * q \<le> max_range" by linarith
  from rnd_pos [OF I r5 r6] obtain pv where
    Pv: "rnd fp (a * q) = Num pv" and pv_lo: "(99 / 100) * (a * q) \<le> pv"
    and pv_hi: "pv \<le> (101 / 100) * (a * q)"
    by blast
  have pv_lo': "(65 / 100) * ?n\<^sup>2 \<le> pv"
  proof -
    have "(99 / 100) * ((66 / 100) * ?n\<^sup>2) \<le> (99 / 100) * (a * q)"
      using aq_lo by (intro mult_left_mono) simp_all
    moreover have "(65 / 100) * ?n\<^sup>2 \<le> (99 / 100) * ((66 / 100) * ?n\<^sup>2)"
      by simp
    ultimately show ?thesis using pv_lo by linarith
  qed
  have pv_hi': "pv \<le> 2 ^ 66"
  proof -
    have "(101 / 100) * (a * q) \<le> (101 / 100) * 2 ^ 65"
      using aq_hi by (intro mult_left_mono) simp_all
    with pv_hi show ?thesis by simp
  qed
  have pv_pos: "0 < pv" using pv_lo' sq_lo by linarith
  \<comment> \<open>the raw estimate\<close>
  have pz_lo: "(64 / 100) * ?n \<le> pv * zv"
  proof -
    have "((65 / 100) * ?n\<^sup>2) * ((99 / 100) / ?n) \<le> pv * zv"
      using pv_lo' zv_lo' n_pos pv_pos by (intro mult_mono) simp_all
    moreover have "((65 / 100) * ?n\<^sup>2) * ((99 / 100) / ?n) = (6435 / 10000) * ?n"
      using n_pos by (simp add: power2_eq_square)
    ultimately show ?thesis using n_pos by simp
  qed
  have pz_hi: "pv * zv \<le> 2 ^ 66 * 2 ^ 257"
    using pv_hi' zv_hi' pv_pos zv_pos by (intro mult_mono) simp_all
  have r7: "min_normal \<le> pv * zv" using pz_lo n_16 minr by linarith
  have "(2::real) ^ 66 * 2 ^ 257 \<le> 2 ^ 330"
    by (simp only: power_add [symmetric]) (rule power_increasing, simp_all)
  with pz_hi maxr have r8: "pv * zv \<le> max_range" by linarith
  from rnd_pos [OF I r7 r8] obtain ev where
    Ev: "rnd fp (pv * zv) = Num ev" and ev_lo: "(99 / 100) * (pv * zv) \<le> ev"
    by blast
  have ev_lo': "(63 / 100) * ?n \<le> ev"
  proof -
    have "(99 / 100) * ((64 / 100) * ?n) \<le> (99 / 100) * (pv * zv)"
      using pz_lo by (intro mult_left_mono) simp_all
    moreover have "(63 / 100) * ?n \<le> (99 / 100) * ((64 / 100) * ?n)"
      using n_pos by simp
    ultimately show ?thesis using ev_lo by linarith
  qed
  \<comment> \<open>the small-range threshold\<close>
  have "min_normal \<le> (2 / 5 :: real)"
  proof -
    have "min_normal \<le> 2 powr (- 2)"
      unfolding min_normal_def by (rule powr_mono) simp_all
    moreover have "(2::real) powr (- 2) = 1 / 2 powr 2"
      by (simp add: powr_minus_divide)
    moreover have "1 / (2::real) powr 2 \<le> 2 / 5"
      by simp
    ultimately show ?thesis by linarith
  qed
  moreover have "(2 / 5 :: real) \<le> max_range"
  proof -
    have "(2 / 5 :: real) \<le> 2 ^ 330" by simp
    with maxr show ?thesis by linarith
  qed
  ultimately obtain c where
    C: "rnd fp (2 / 5) = Num c" and c_lo: "(99 / 100) * (2 / 5) \<le> c"
    and c_hi: "c \<le> (101 / 100) * (2 / 5)"
    using rnd_pos [OF I, of "2 / 5"] by blast
  have cn_lo: "1 \<le> c * ?n"
  proof -
    have "(99 / 100) * (2 / 5) * 16 \<le> c * ?n"
      using c_lo n_16 by (intro mult_mono) simp_all
    then show ?thesis by simp
  qed
  have cn_hi: "c * ?n \<le> (101 / 100) * (2 / 5) * ?n"
    using c_hi n_pos by (intro mult_right_mono) simp_all
  have r9: "min_normal \<le> c * ?n" using cn_lo minr by linarith
  have "(101 / 100) * (2 / 5) * ?n \<le> 1 * 2 ^ 32"
    using n_hi n_pos by (intro mult_mono) simp_all
  moreover have "(2::real) ^ 32 \<le> 2 ^ 330" by (rule power_increasing) simp_all
  ultimately have r10: "c * ?n \<le> max_range" using cn_hi maxr by linarith
  from rnd_pos [OF I r9 r10] obtain t where
    T: "rnd fp (c * ?n) = Num t" and t_hi: "t \<le> (101 / 100) * (c * ?n)"
    by blast
  have "t \<le> (41 / 100) * ?n"
  proof -
    have "(101 / 100) * (c * ?n) \<le> (101 / 100) * ((101 / 100) * (2 / 5) * ?n)"
      using cn_hi by (intro mult_left_mono) simp_all
    moreover have "(101 / 100) * ((101 / 100) * (2 / 5) * ?n) \<le> (41 / 100) * ?n"
      using n_pos by simp
    ultimately show ?thesis using t_hi by linarith
  qed
  with ev_lo' n_pos have lt: "t < ev" by linarith
  have "fmul fp (fmul fp (Num a) (rnd fp (?n\<^sup>2)))
          (fdiv fp (Num 1)
             (foldl (\<lambda>z reg. fadd fp z (math_Pow fp (Num 2) (fneg (of_uint8 reg)))) (Num 0) rs))
        = Num ev"
    by (simp only: S fd Q fmul.simps Pv Ev)
  moreover have "fmul fp (rnd fp (2 / 5)) (Num ?n) = Num t"
    by (simp only: C fmul.simps T)
  ultimately show ?thesis
    using lt by blast
qed

lemma of_uint64_small:
  assumes "ieee_rounding (rnd fp)" and "unat w < 2 ^ 32"
  shows "of_uint64 fp w = Num (real (unat w))"
proof -
  have "unat w \<le> (2::nat) ^ 32" using assms(2) by simp
  also have "(2::nat) ^ 32 \<le> 2 ^ 53" by (rule power_increasing) simp_all
  finally show ?thesis
    using rnd_nat [OF assms(1)] by (simp add: of_uint64_def)
qed

lemma correction_float64_eq:
  assumes I: "ieee_rounding (rnd fp)" and m32: "unat (m c) < 2 ^ 32"
    and len: "length (slice_at s (regs c)) = unat (m c)"
  shows "correction_float64 fp s c e =
           (let fm = Num (real (unat (m c)));
                V = length (filter (\<lambda>reg. reg = 0) (slice_at s (regs c)))
            in if flt e (fmul fp (rnd fp (2 / 5)) fm)
               then (if V \<noteq> 0 then fmul fp fm (math_Log10 fp (fdiv fp fm (Num (real V)))) else e)
               else if flt (rnd fp ((1 / 30) * 2 ^ 32)) e
               then fmul fp (Num (- (2 ^ 32)))
                      (math_Log10 fp (fsub fp (Num 1) (fdiv fp e (Num (2 ^ 32)))))
               else e)"
proof -
  have "unat (m c) \<le> (2::nat) ^ 32" using m32 by simp
  also have "(2::nat) ^ 32 \<le> 2 ^ 53" by (rule power_increasing) simp_all
  finally have "0 + length (slice_at s (regs c)) \<le> (2::nat) ^ 53"
    by (simp add: len)
  from fcount_zero [OF I this]
  have v: "foldl (\<lambda>v reg. if reg = 0 then fadd fp v (Num 1) else v) (Num 0) (slice_at s (regs c)) =
      Num (real (length (filter (\<lambda>reg. reg = 0) (slice_at s (regs c)))))"
    by simp
  show ?thesis
    by (simp add: correction_float64_def v of_uint64_small [OF I m32] Let_def)
qed

lemma Count_float64_eq:
  assumes I: "ieee_rounding (rnd fp)" and P: "pow2_exact fp"
    and c: "counter_at s p = Some c"
    and m16: "16 \<le> unat (m c)" and m32: "unat (m c) < 2 ^ 32"
    and len: "length (registers s p) = unat (m c)"
    and a_lo: "67 / 100 \<le> alpha c" and a_hi: "alpha c \<le> 1"
  shows "Count_float64 fp s p = Inr (Count_claimed fp (alpha c) (unat (m c)) (registers s p))"
proof -
  let ?rs = "slice_at s (regs c)"
  let ?n = "unat (m c)"
  let ?S = "foldl (\<lambda>z reg. fadd fp z (math_Pow fp (Num 2) (fneg (of_uint8 reg)))) (Num 0) ?rs"
  let ?E = "fmul fp (fmul fp (Num (alpha c)) (rnd fp ((real ?n)\<^sup>2))) (fdiv fp (Num 1) ?S)"
  have r: "registers s p = ?rs"
    by (simp add: registers_def c)
  have len': "length ?rs = ?n"
    using len by (simp add: r)
  have sq: "of_uint64 fp (m c * m c) = rnd fp ((real ?n)\<^sup>2)"
    by (simp add: of_uint64_def unat_m_squared [OF m32])
  have cnt: "Count_float64 fp s p = Inr (correction_float64 fp s c ?E)"
    by (simp add: Count_float64_def c sq Let_def)
  from raw_estimate_float64 [OF I P m16 m32 len' a_lo a_hi] obtain ev t where
    E: "?E = Num ev" and T: "fmul fp (rnd fp (2 / 5)) (Num (real ?n)) = Num t" and "t < ev"
    by blast
  then have dead: "\<not> flt ?E (fmul fp (rnd fp (2 / 5)) (Num (real ?n)))"
    by simp
  have S': "foldl (\<lambda>z reg. fadd fp z (math_Pow fp (Num 2) (Num (- real (unat reg))))) (Num 0) ?rs = ?S"
    by (simp add: of_uint8_def)
  show ?thesis
    unfolding cnt correction_float64_eq [OF I m32 len'] Count_claimed_def r S'
    using dead by (simp add: Let_def)
qed

lemma valid_shape:
  assumes "valid pf s p" and "counter_at s p = Some c"
  shows "16 \<le> unat (m c)" and "unat (m c) < 2 ^ 32"
    and "length (registers s p) = unat (m c)"
    and "67 / 100 \<le> alpha c" and "alpha c \<le> 1"
proof -
  note f = valid_fields [OF assms]
  show "16 \<le> unat (m c)" "unat (m c) < 2 ^ 32" by (rule f(1), rule f(2))
  show "length (registers s p) = unat (m c)"
    by (simp add: registers_def assms(2) f(9))
  from alpha_step_bounds [OF f(1)] show "67 / 100 \<le> alpha c" "alpha c \<le> 1"
    by (simp_all add: f(4))
qed

lemma exact_fpu_ok: "ieee_rounding (rnd exact_fpu)" "pow2_exact exact_fpu"
  by (simp_all add: ieee_rounding_def pow2_exact_def exact_fpu_def)

subsection \<open>Rounding to nearest, ties to even\<close>

lemma round_even_near: "\<bar>of_int (round_even q) - q\<bar> \<le> 1 / 2"
  unfolding round_even_def Let_def by (auto; linarith)

lemma round_even_bounds: "\<lfloor>q\<rfloor> \<le> round_even q" "round_even q \<le> \<lfloor>q\<rfloor> + 1"
  unfolding round_even_def Let_def by auto

lemma round_even_int: "round_even (of_int k) = k"
  unfolding round_even_def Let_def by simp

lemma round_even_mono:
  assumes "q \<le> q'"
  shows "round_even q \<le> round_even q'"
proof (cases "\<lfloor>q\<rfloor> = \<lfloor>q'\<rfloor>")
  case True
  with assms show ?thesis
    unfolding round_even_def Let_def by auto
next
  case False
  with assms have "\<lfloor>q\<rfloor> < \<lfloor>q'\<rfloor>"
    using floor_mono [OF assms] by linarith
  with round_even_bounds(2) [of q] round_even_bounds(1) [of q'] show ?thesis
    by linarith
qed

lemma round_even_neg: "round_even (- q) = - round_even q"
proof (cases "q = of_int \<lfloor>q\<rfloor>")
  case True
  then obtain k where "q = of_int k" by blast
  then have "- q = of_int (- k)" by simp
  with \<open>q = of_int k\<close> show ?thesis
    by (simp only: round_even_int)
next
  case False
  then have lo: "of_int \<lfloor>q\<rfloor> < q"
    using of_int_floor_le [of q] by linarith
  have hi: "q < of_int \<lfloor>q\<rfloor> + 1"
    by linarith
  have c: "real_of_int (- \<lfloor>q\<rfloor> - 1) = - of_int \<lfloor>q\<rfloor> - 1"
    by simp
  have fl: "\<lfloor>- q\<rfloor> = - \<lfloor>q\<rfloor> - 1"
  proof (rule floor_unique)
    show "of_int (- \<lfloor>q\<rfloor> - 1) \<le> - q"
      unfolding c using hi by linarith
    show "- q < of_int (- \<lfloor>q\<rfloor> - 1) + 1"
      unfolding c using lo by linarith
  qed
  show ?thesis
    unfolding round_even_def Let_def fl by auto
qed


lemma ulp_pos: "0 < ulp x"
  by (simp add: ulp_def)

lemma binade_neg: "binade (- x) = binade x"
  by (simp add: binade_def)

lemma ulp_neg: "ulp (- x) = ulp x"
  by (simp add: ulp_def binade_neg)

lemma nearest_neg: "nearest (- x) = - nearest x"
  by (simp add: nearest_def ulp_neg round_even_neg)

lemma nearest_0: "nearest 0 = 0"
  using round_even_int [of 0] by (simp add: nearest_def)

lemma ulp_binade: "2 ^ 52 * ulp x = 2 powr (of_int (binade x))"
proof -
  have "(2::real) ^ 52 = 2 powr (of_int 52)"
    by simp
  then have "2 ^ 52 * ulp x = 2 powr (of_int 52) * 2 powr (of_int (binade x - 52))"
    by (simp only: ulp_def)
  also have "\<dots> = 2 powr (of_int 52 + of_int (binade x - 52))"
    by (simp only: powr_add)
  also have "of_int 52 + of_int (binade x - 52) = (of_int (binade x) :: real)"
    by simp
  finally show ?thesis .
qed

lemma floor_log_bounds:
  assumes "0 < x"
  shows "2 powr (of_int \<lfloor>log 2 x\<rfloor>) \<le> x" and "x < 2 powr (of_int (\<lfloor>log 2 x\<rfloor> + 1))"
proof -
  have "2 powr (of_int \<lfloor>log 2 x\<rfloor>) \<le> 2 powr (log 2 x)"
    by (rule powr_mono) simp_all
  then show "2 powr (of_int \<lfloor>log 2 x\<rfloor>) \<le> x"
    using assms by simp
  have "log 2 x < of_int (\<lfloor>log 2 x\<rfloor> + 1)"
    by linarith
  then have "2 powr (log 2 x) < 2 powr (of_int (\<lfloor>log 2 x\<rfloor> + 1))"
    by (rule powr_less_mono) simp
  then show "x < 2 powr (of_int (\<lfloor>log 2 x\<rfloor> + 1))"
    using assms by simp
qed

lemma binade_upper:
  assumes "0 < x"
  shows "x < 2 powr (of_int (binade x + 1))"
proof -
  have "\<lfloor>log 2 x\<rfloor> + 1 \<le> binade x + 1"
    using assms by (simp add: binade_def)
  then have "(2::real) powr (of_int (\<lfloor>log 2 x\<rfloor> + 1)) \<le> 2 powr (of_int (binade x + 1))"
    by (intro powr_mono) simp_all
  with floor_log_bounds(2) [OF assms] show ?thesis
    by linarith
qed

lemma binade_normal:
  assumes "min_normal \<le> x"
  shows "binade x = \<lfloor>log 2 x\<rfloor>" and "2 powr (of_int (binade x)) \<le> x"
proof -
  have pos: "0 < x"
    using assms powr_gt_zero [of 2 "- 1022"] unfolding min_normal_def by linarith
  have "log 2 (2 powr (- 1022)) \<le> log 2 x"
    using assms pos unfolding min_normal_def by (subst log_le_cancel_iff) simp_all
  then have "- 1022 \<le> log 2 x"
    by simp
  then have "- 1022 \<le> \<lfloor>log 2 x\<rfloor>"
    by linarith
  then show b: "binade x = \<lfloor>log 2 x\<rfloor>"
    using pos by (simp add: binade_def)
  show "2 powr (of_int (binade x)) \<le> x"
    unfolding b by (rule floor_log_bounds(1) [OF pos])
qed

lemma binade_mono:
  assumes "0 < x" and "x \<le> y"
  shows "binade x \<le> binade y"
proof -
  have "log 2 x \<le> log 2 y"
    using assms by simp
  then have "\<lfloor>log 2 x\<rfloor> \<le> \<lfloor>log 2 y\<rfloor>"
    by (rule floor_mono)
  then show ?thesis
    using assms by (simp add: binade_def)
qed

lemma binade_above:
  assumes "0 < y" and "- 1022 < binade y"
  shows "min_normal \<le> y"
proof -
  have "\<bar>y\<bar> = y"
    using assms(1) by simp
  with assms(2) have "- 1022 < \<lfloor>log 2 y\<rfloor>"
    unfolding binade_def by (simp only: max_def split: if_splits)
  then have "- 1022 \<le> log 2 y"
    by linarith
  then have "2 powr (- 1022) \<le> 2 powr (log 2 y)"
    by (intro powr_mono) simp_all
  then show ?thesis
    using assms(1) by (simp add: min_normal_def)
qed


lemma nearest_nonneg:
  assumes "0 \<le> x"
  shows "0 \<le> nearest x"
proof -
  have "0 \<le> x / ulp x"
    using assms ulp_pos [of x] by simp
  then have "round_even 0 \<le> round_even (x / ulp x)"
    by (rule round_even_mono)
  then have "0 \<le> round_even (x / ulp x)"
    using round_even_int [of 0] by simp
  then show ?thesis
    using ulp_pos [of x] by (simp add: nearest_def)
qed

lemma nearest_upper:
  assumes "0 < x"
  shows "nearest x \<le> 2 powr (of_int (binade x + 1))"
proof -
  have "x < 2 powr (of_int (binade x + 1))"
    by (rule binade_upper [OF assms])
  also have "(2::real) powr (of_int (binade x + 1)) = 2 * 2 powr (of_int (binade x))"
    by (simp add: powr_add)
  also have "\<dots> = 2 ^ 53 * ulp x"
    using ulp_binade [of x] by simp
  finally have "x / ulp x \<le> 2 ^ 53"
    using ulp_pos [of x] by (simp add: pos_divide_le_eq)
  then have "round_even (x / ulp x) \<le> round_even (2 ^ 53)"
    by (rule round_even_mono)
  also have "round_even (2 ^ 53) = 2 ^ 53"
    using round_even_int [of "2 ^ 53"] by simp
  finally have "real_of_int (round_even (x / ulp x)) \<le> real_of_int (2 ^ 53)"
    by (simp only: of_int_le_iff)
  then have "real_of_int (round_even (x / ulp x)) \<le> 2 ^ 53"
    by simp
  then have "nearest x \<le> 2 ^ 53 * ulp x"
    unfolding nearest_def using ulp_pos [of x] by (intro mult_right_mono) simp_all
  also have "2 ^ 53 * ulp x = 2 powr (of_int (binade x + 1))"
    using ulp_binade [of x] by (simp add: powr_add)
  finally show ?thesis .
qed

lemma nearest_lower:
  assumes "min_normal \<le> x"
  shows "2 powr (of_int (binade x)) \<le> nearest x"
proof -
  have "2 ^ 52 * ulp x \<le> x"
    using binade_normal(2) [OF assms] by (simp only: ulp_binade)
  then have "2 ^ 52 \<le> x / ulp x"
    using ulp_pos [of x] by (simp add: pos_le_divide_eq)
  then have "round_even (2 ^ 52) \<le> round_even (x / ulp x)"
    by (rule round_even_mono)
  moreover have "round_even (2 ^ 52) = 2 ^ 52"
    using round_even_int [of "2 ^ 52"] by simp
  ultimately have "real_of_int (2 ^ 52) \<le> real_of_int (round_even (x / ulp x))"
    by (simp only: of_int_le_iff)
  then have "2 ^ 52 \<le> real_of_int (round_even (x / ulp x))"
    by simp
  then have "2 ^ 52 * ulp x \<le> nearest x"
    unfolding nearest_def using ulp_pos [of x] by (intro mult_right_mono) simp_all
  then show ?thesis
    by (simp only: ulp_binade)
qed

lemma nearest_mono_pos:
  assumes "0 < x" and "x \<le> y"
  shows "nearest x \<le> nearest y"
proof (cases "binade x = binade y")
  case True
  then have u: "ulp x = ulp y"
    by (simp add: ulp_def)
  have "x / ulp y \<le> y / ulp y"
    using assms(2) ulp_pos [of y] by (simp add: divide_right_mono)
  then have "round_even (x / ulp y) \<le> round_even (y / ulp y)"
    by (rule round_even_mono)
  then show ?thesis
    unfolding nearest_def u using ulp_pos [of y] by (intro mult_right_mono) simp_all
next
  case False
  with binade_mono [OF assms] have lt: "binade x < binade y"
    by simp
  have "- 1022 \<le> binade x"
    by (simp add: binade_def)
  with lt have "- 1022 < binade y"
    by simp
  then have n: "min_normal \<le> y"
    using assms by (intro binade_above) simp_all
  have "nearest x \<le> 2 powr (of_int (binade x + 1))"
    by (rule nearest_upper [OF assms(1)])
  also have "\<dots> \<le> 2 powr (of_int (binade y))"
    using lt by (intro powr_mono) simp_all
  also have "\<dots> \<le> nearest y"
    by (rule nearest_lower [OF n])
  finally show ?thesis .
qed

lemma nearest_mono:
  assumes "x \<le> y"
  shows "nearest x \<le> nearest y"
proof -
  consider "0 < x" | "x \<le> 0" "0 \<le> y" | "y < 0"
    using assms by linarith
  then show ?thesis
  proof cases
    case 1
    then show ?thesis
      by (rule nearest_mono_pos [OF _ assms])
  next
    case 2
    have "0 \<le> nearest (- x)"
      using 2(1) by (intro nearest_nonneg) simp
    then have "nearest x \<le> 0"
      by (simp add: nearest_neg)
    also have "0 \<le> nearest y"
      by (rule nearest_nonneg [OF 2(2)])
    finally show ?thesis .
  next
    case 3
    have "nearest (- y) \<le> nearest (- x)"
      using 3 assms by (intro nearest_mono_pos) simp_all
    then show ?thesis
      by (simp add: nearest_neg)
  qed
qed

lemma nearest_error:
  assumes "min_normal \<le> \<bar>x\<bar>"
  shows "\<bar>nearest x - x\<bar> \<le> \<bar>x\<bar> / 2 ^ 53"
proof -
  have "\<bar>nearest x - x\<bar> = \<bar>real_of_int (round_even (x / ulp x)) - x / ulp x\<bar> * ulp x"
  proof -
    have "nearest x - x = (real_of_int (round_even (x / ulp x)) - x / ulp x) * ulp x"
      using ulp_pos [of x] by (simp add: nearest_def left_diff_distrib)
    then show ?thesis
      using ulp_pos [of x] by (simp add: abs_mult)
  qed
  also have "\<dots> \<le> (1 / 2) * ulp x"
    using ulp_pos [of x] by (intro mult_right_mono round_even_near) simp
  also have "(1 / 2) * ulp x = (2 ^ 52 * ulp x) / 2 ^ 53"
    by simp
  also have "\<dots> = 2 powr (of_int (binade x)) / 2 ^ 53"
    by (simp only: ulp_binade)
  also have "\<dots> \<le> \<bar>x\<bar> / 2 ^ 53"
  proof -
    have "2 powr (of_int (binade \<bar>x\<bar>)) \<le> \<bar>x\<bar>"
      by (rule binade_normal(2) [OF assms])
    moreover have "binade \<bar>x\<bar> = binade x"
      by (simp add: binade_def)
    ultimately show ?thesis
      by (simp add: divide_right_mono)
  qed
  finally show ?thesis .
qed


lemma min_normal_pos: "0 < min_normal"
  by (simp add: min_normal_def)

lemma round_float64_normal:
  assumes "min_normal \<le> \<bar>x\<bar>" and "\<bar>x\<bar> \<le> max_range"
  shows "round_float64 x = Num (nearest x)"
proof -
  have pos: "0 < \<bar>x\<bar>"
    using assms(1) min_normal_pos by linarith
  then have "\<bar>x\<bar> / 2 ^ 53 < \<bar>x\<bar>"
    by (simp add: field_simps)
  with nearest_error [OF assms(1)] have "\<bar>nearest x\<bar> < 2 * \<bar>x\<bar>"
    by linarith
  also have "2 * \<bar>x\<bar> \<le> 2 * 2 ^ 1023"
    using assms(2) by (simp add: max_range_def)
  also have "(2::real) * 2 ^ 1023 = 2 ^ 1024"
    by simp
  finally show ?thesis
    by (simp add: round_float64_def)
qed

lemma round_float64_Num:
  assumes "round_float64 x = Num y"
  shows "y = nearest x"
  using assms by (simp add: round_float64_def split: if_splits)

lemma nearest_nat:
  assumes "k \<le> 2 ^ 53"
  shows "nearest (real k) = real k"
proof (cases "k = 0")
  case True
  then show ?thesis
    by (simp add: nearest_0)
next
  case False
  then have k1: "1 \<le> real k"
    by simp
  have "min_normal \<le> 2 powr 0"
    unfolding min_normal_def by (intro powr_mono) simp_all
  with k1 have mn: "min_normal \<le> real k"
    by simp
  note b = binade_normal [OF mn]
  have kle: "real k \<le> 2 ^ 53"
    using assms by (metis of_nat_le_iff of_nat_numeral of_nat_power)
  have "(2::real) powr (of_int (binade (real k))) \<le> 2 powr (of_int 53)"
    using b(2) kle by simp
  then have "real_of_int (binade (real k)) \<le> real_of_int 53"
    by (subst (asm) powr_le_cancel_iff) simp_all
  then have le53: "binade (real k) \<le> 53"
    by (simp only: of_int_le_iff)
  have "0 \<le> log 2 (real k)"
    using k1 by simp
  then have ge0: "0 \<le> binade (real k)"
    unfolding b(1) by simp
  have "\<exists>j. real k / ulp (real k) = of_int j"
  proof (cases "binade (real k) = 53")
    case True
    then have "2 ^ 53 \<le> real k"
      using b(2) by simp
    with kle have "real k = 2 ^ 53"
      by simp
    moreover have "ulp (real k) = 2"
      by (simp add: ulp_def True)
    ultimately have "real k / ulp (real k) = of_int (2 ^ 52)"
      by simp
    then show ?thesis ..
  next
    case False
    with le53 have "binade (real k) \<le> 52"
      by simp
    then obtain d where d: "52 - binade (real k) = int d"
      by (metis diff_ge_0_iff_ge nonneg_int_cases)
    have "ulp (real k) * 2 ^ d = 2 powr (of_int (binade (real k) - 52)) * 2 powr (of_int (int d))"
      by (simp add: ulp_def powr_realpow)
    also have "\<dots> = 2 powr (of_int (binade (real k) - 52) + of_int (int d))"
      by (simp only: powr_add)
    also have "of_int (binade (real k) - 52) + of_int (int d) = (0::real)"
      using d by simp
    finally have "ulp (real k) * 2 ^ d = 1"
      by simp
    then have "real k / ulp (real k) = real k * 2 ^ d"
      using ulp_pos [of "real k"] by (simp add: field_simps)
    also have "\<dots> = of_int (int (k * 2 ^ d))"
      by simp
    finally show ?thesis ..
  qed
  then obtain j where j: "real k / ulp (real k) = of_int j" ..
  then have "nearest (real k) = (real k / ulp (real k)) * ulp (real k)"
    by (simp only: nearest_def round_even_int)
  then show ?thesis
    using ulp_pos [of "real k"] by simp
qed

lemma round_float64_nat:
  assumes "k \<le> 2 ^ 53"
  shows "round_float64 (real k) = Num (real k)"
proof -
  have "real k \<le> 2 ^ 53"
    using assms by (metis of_nat_le_iff of_nat_numeral of_nat_power)
  also have "(2::real) ^ 53 < 2 ^ 1024"
    by simp
  finally show ?thesis
    by (simp add: round_float64_def nearest_nat [OF assms])
qed

text \<open>Rounding to nearest, ties to even, has the three properties.\<close>

lemma round_float64_ieee: "ieee_rounding round_float64"
  unfolding ieee_rounding_def
proof (intro conjI allI impI)
  fix x :: real
  assume "min_normal \<le> \<bar>x\<bar> \<and> \<bar>x\<bar> \<le> max_range"
  then show "\<exists>y. round_float64 x = Num y \<and> \<bar>y - x\<bar> \<le> \<bar>x\<bar> / 2 ^ 53"
    using round_float64_normal [of x] nearest_error [of x] by blast
next
  fix x y x' y' :: real
  assume "x \<le> y \<and> round_float64 x = Num x' \<and> round_float64 y = Num y'"
  then show "x' \<le> y'"
    using nearest_mono [of x y] round_float64_Num by blast
next
  fix k :: nat
  assume "k \<le> 2 ^ 53"
  then show "round_float64 (real k) = Num (real k)"
    by (rule round_float64_nat)
qed


lemma binade_eq:
  assumes "2 powr (of_int e) \<le> x" and "x < 2 powr (of_int (e + 1))" and "- 1022 \<le> e"
  shows "binade x = e"
proof -
  have pos: "0 < x"
    using assms(1) powr_gt_zero [of 2 "of_int e"] by linarith
  have "log 2 (2 powr (of_int e)) \<le> log 2 x"
    using assms(1) pos by (subst log_le_cancel_iff) simp_all
  then have lo: "of_int e \<le> log 2 x"
    by simp
  have "log 2 x < log 2 (2 powr (of_int (e + 1)))"
    using assms(2) pos by (subst log_less_cancel_iff) simp_all
  then have hi: "log 2 x < of_int e + 1"
    by simp
  have "\<lfloor>log 2 x\<rfloor> = e"
    by (rule floor_unique [OF lo hi])
  then show ?thesis
    using pos assms(3) by (simp add: binade_def)
qed

lemma round_float64_in_binade:
  assumes "2 powr (of_int e) \<le> x" and "x < 2 powr (of_int (e + 1))"
    and "- 1022 \<le> e" and "e \<le> 1022"
  shows "round_float64 x =
         Num (of_int (round_even (x / 2 powr (of_int (e - 52)))) * 2 powr (of_int (e - 52)))"
proof -
  have pos: "0 < x"
    using assms(1) powr_gt_zero [of 2 "of_int e"] by linarith
  have b: "binade x = e"
    by (rule binade_eq [OF assms(1,2,3)])
  have "nearest x \<le> 2 powr (of_int (binade x + 1))"
    by (rule nearest_upper [OF pos])
  also have "\<dots> \<le> 2 powr (of_int 1023)"
    unfolding b using assms(4) by (intro powr_mono) simp_all
  also have "\<dots> < 2 ^ 1024"
    by simp
  finally have "nearest x < 2 ^ 1024" .
  moreover have "0 \<le> nearest x"
    using pos by (intro nearest_nonneg) simp
  ultimately have "round_float64 x = Num (nearest x)"
    by (simp add: round_float64_def)
  then show ?thesis
    by (simp add: nearest_def ulp_def b)
qed

lemma round_float64_pow2:
  assumes "- 1022 \<le> e" and "e \<le> 1022"
  shows "round_float64 (2 powr (of_int e)) = Num (2 powr (of_int e))"
proof -
  have lt: "(2::real) powr (of_int e) < 2 powr (of_int (e + 1))"
    by (intro powr_less_mono) simp_all
  have "(2::real) powr (of_int e) / 2 powr (of_int (e - 52)) = 2 powr (of_int e - of_int (e - 52))"
    by (simp only: powr_diff)
  also have "\<dots> = of_int (2 ^ 52)"
    by simp
  finally have q: "(2::real) powr (of_int e) / 2 powr (of_int (e - 52)) = of_int (2 ^ 52)" .
  have "of_int (2 ^ 52) * (2::real) powr (of_int (e - 52)) =
        2 powr (of_int 52) * 2 powr (of_int (e - 52))"
    by simp
  also have "\<dots> = 2 powr (of_int 52 + of_int (e - 52))"
    by (simp only: powr_add)
  also have "\<dots> = 2 powr (of_int e)"
    by simp
  finally have r: "of_int (2 ^ 52) * (2::real) powr (of_int (e - 52)) = 2 powr (of_int e)" .
  show ?thesis
    using round_float64_in_binade [OF order_refl lt assms]
    by (simp only: q round_even_int r)
qed

lemma round_float64_0: "round_float64 0 = Num 0"
  by (simp add: round_float64_def nearest_0)

lemma round_float64_minus: "round_float64 (- x) = fneg (round_float64 x)"
proof (cases "x = 0")
  case True
  then show ?thesis
    by (simp add: round_float64_0)
next
  case False
  then show ?thesis
    by (auto simp add: round_float64_def nearest_neg)
qed

lemma nearest_fpu_ok: "ieee_rounding (rnd nearest_fpu)" "pow2_exact nearest_fpu"
proof -
  show "ieee_rounding (rnd nearest_fpu)"
    by (simp add: nearest_fpu_def round_float64_ieee)
  have "round_float64 (2 powr (- real k)) = Num (2 powr (- real k))" if "k \<le> 255" for k
    using that round_float64_pow2 [of "- int k"] by simp
  then show "pow2_exact nearest_fpu"
    by (simp add: pow2_exact_def nearest_fpu_def)
qed

text \<open>The roundings that the two concrete sketches below need.\<close>

lemma round_float64_table:
  "round_float64 (1 / 536870912) = Num (1 / 536870912)"
  "round_float64 (1 / 268435456) = Num (1 / 268435456)"
  "round_float64 (3 / 536870912) = Num (3 / 536870912)"
  "round_float64 (1 / 134217728) = Num (1 / 134217728)"
  "round_float64 (5 / 536870912) = Num (5 / 536870912)"
  "round_float64 (3 / 268435456) = Num (3 / 268435456)"
  "round_float64 (7 / 536870912) = Num (7 / 536870912)"
  "round_float64 (1 / 67108864) = Num (1 / 67108864)"
  "round_float64 (9 / 536870912) = Num (9 / 536870912)"
  "round_float64 (5 / 268435456) = Num (5 / 268435456)"
  "round_float64 (11 / 536870912) = Num (11 / 536870912)"
  "round_float64 (3 / 134217728) = Num (3 / 134217728)"
  "round_float64 (13 / 536870912) = Num (13 / 536870912)"
  "round_float64 (7 / 268435456) = Num (7 / 268435456)"
  "round_float64 (15 / 536870912) = Num (15 / 536870912)"
  "round_float64 (1 / 33554432) = Num (1 / 33554432)"
  "round_float64 (1 / 16) = Num (1 / 16)"
  "round_float64 (16 / 233) = Num (1237040240994471 / 18014398509481984)"
  "round_float64 (97390341941887 / 281474976710656) = Num (97390341941887 / 281474976710656)"
  "round_float64 (2 / 5) = Num (3602879701896397 / 9007199254740992)"
  "round_float64 (1 / 2) = Num (1 / 2)"
  "round_float64 (1) = Num (1)"
  "round_float64 (8 / 7) = Num (2573485501354569 / 2251799813685248)"
  "round_float64 (378865318652543 / 281474976710656) = Num (378865318652543 / 281474976710656)"
  "round_float64 (2) = Num (2)"
  "round_float64 (5 / 2) = Num (5 / 2)"
  "round_float64 (7 / 2) = Num (7 / 2)"
  "round_float64 (9 / 2) = Num (9 / 2)"
  "round_float64 (73 / 16) = Num (73 / 16)"
  "round_float64 (89 / 16) = Num (89 / 16)"
  "round_float64 (3602879701896397 / 562949953421312) = Num (3602879701896397 / 562949953421312)"
  "round_float64 (105 / 16) = Num (105 / 16)"
  "round_float64 (121 / 16) = Num (121 / 16)"
  "round_float64 (137 / 16) = Num (137 / 16)"
  "round_float64 (153 / 16) = Num (153 / 16)"
  "round_float64 (169 / 16) = Num (169 / 16)"
  "round_float64 (185 / 16) = Num (185 / 16)"
  "round_float64 (468671645090388841636033089753 / 39614081257132168796771975168) = Num (832528082189279 / 70368744177664)"
  "round_float64 (201 / 16) = Num (201 / 16)"
  "round_float64 (217 / 16) = Num (217 / 16)"
  "round_float64 (233 / 16) = Num (233 / 16)"
  "round_float64 (16) = Num (16)"
  "round_float64 (21536 / 125) = Num (378865318652543 / 2199023255552)"
  "round_float64 (256) = Num (256)"
  "round_float64 (33554432) = Num (33554432)"
  "round_float64 (2147483648 / 15) = Num (4803839602528529 / 33554432)"
  "round_float64 (378865318652543 / 65536) = Num (378865318652543 / 65536)"
  using
    round_float64_in_binade [of "- 29" "1 / 536870912"]
    round_float64_in_binade [of "- 28" "1 / 268435456"]
    round_float64_in_binade [of "- 28" "3 / 536870912"]
    round_float64_in_binade [of "- 27" "1 / 134217728"]
    round_float64_in_binade [of "- 27" "5 / 536870912"]
    round_float64_in_binade [of "- 27" "3 / 268435456"]
    round_float64_in_binade [of "- 27" "7 / 536870912"]
    round_float64_in_binade [of "- 26" "1 / 67108864"]
    round_float64_in_binade [of "- 26" "9 / 536870912"]
    round_float64_in_binade [of "- 26" "5 / 268435456"]
    round_float64_in_binade [of "- 26" "11 / 536870912"]
    round_float64_in_binade [of "- 26" "3 / 134217728"]
    round_float64_in_binade [of "- 26" "13 / 536870912"]
    round_float64_in_binade [of "- 26" "7 / 268435456"]
    round_float64_in_binade [of "- 26" "15 / 536870912"]
    round_float64_in_binade [of "- 25" "1 / 33554432"]
    round_float64_in_binade [of "- 4" "1 / 16"]
    round_float64_in_binade [of "- 4" "16 / 233"]
    round_float64_in_binade [of "- 2" "97390341941887 / 281474976710656"]
    round_float64_in_binade [of "- 2" "2 / 5"]
    round_float64_in_binade [of "- 1" "1 / 2"]
    round_float64_in_binade [of 0 "1"]
    round_float64_in_binade [of 0 "8 / 7"]
    round_float64_in_binade [of 0 "378865318652543 / 281474976710656"]
    round_float64_in_binade [of 1 "2"]
    round_float64_in_binade [of 1 "5 / 2"]
    round_float64_in_binade [of 1 "7 / 2"]
    round_float64_in_binade [of 2 "9 / 2"]
    round_float64_in_binade [of 2 "73 / 16"]
    round_float64_in_binade [of 2 "89 / 16"]
    round_float64_in_binade [of 2 "3602879701896397 / 562949953421312"]
    round_float64_in_binade [of 2 "105 / 16"]
    round_float64_in_binade [of 2 "121 / 16"]
    round_float64_in_binade [of 3 "137 / 16"]
    round_float64_in_binade [of 3 "153 / 16"]
    round_float64_in_binade [of 3 "169 / 16"]
    round_float64_in_binade [of 3 "185 / 16"]
    round_float64_in_binade [of 3 "468671645090388841636033089753 / 39614081257132168796771975168"]
    round_float64_in_binade [of 3 "201 / 16"]
    round_float64_in_binade [of 3 "217 / 16"]
    round_float64_in_binade [of 3 "233 / 16"]
    round_float64_in_binade [of 4 "16"]
    round_float64_in_binade [of 7 "21536 / 125"]
    round_float64_in_binade [of 8 "256"]
    round_float64_in_binade [of 25 "33554432"]
    round_float64_in_binade [of 27 "2147483648 / 15"]
    round_float64_in_binade [of 32 "378865318652543 / 65536"]
  by (simp_all add: powr_minus_divide round_even_def Let_def)

subsection \<open>The estimate in float64 arithmetic\<close>

lemma exact_sum:
  fixes rs :: "byte list"
  shows "foldl (\<lambda>z reg. fadd exact_fpu z (math_Pow exact_fpu (Num 2) (Num (- real (unat reg)))))
           (Num a) rs = Num (a + (\<Sum>reg\<leftarrow>rs. 2 powr (- real (unat reg))))"
  by (induction rs arbitrary: a) (simp_all add: exact_fpu_def add.assoc)

lemma Count_claimed_exact:
  fixes rs :: "byte list"
  assumes "rs \<noteq> []" and "0 < n" and "0 \<le> a"
    and "a * (real n)\<^sup>2 * (1 / (\<Sum>reg\<leftarrow>rs. 2 powr (- real (unat reg)))) < 2 ^ 32"
  shows "Count_claimed exact_fpu a n rs = Num (Count_spec a n rs)"
proof -
  let ?S = "\<Sum>reg\<leftarrow>rs. 2 powr (- real (unat reg))"
  let ?E = "a * (real n)\<^sup>2 * (1 / ?S)"
  let ?V = "length (filter (\<lambda>reg. reg = 0) rs)"
  have S0: "?S \<noteq> 0"
    using sum_powr_bounds(2) [OF assms(1)] by simp
  have S: "foldl (\<lambda>z reg. fadd exact_fpu z (math_Pow exact_fpu (Num 2) (Num (- real (unat reg)))))
           (Num 0) rs = Num ?S"
    by (simp add: exact_sum)
  have E: "fmul exact_fpu (fmul exact_fpu (Num a) (rnd exact_fpu ((real n)\<^sup>2)))
             (fdiv exact_fpu (Num 1) (Num ?S)) = Num ?E"
    using S0 by (simp add: exact_fpu_def)
  have thr: "fmul exact_fpu (rnd exact_fpu (2 / 5)) (Num (real n)) = Num ((2 / 5) * real n)"
    by (simp add: exact_fpu_def)
  have small: "fmul exact_fpu (Num (real n))
                 (math_Log10 exact_fpu (fdiv exact_fpu (Num (real n)) (Num (real ?V)))) =
               Num (real n * log 10 (real n / real ?V))" if "?V \<noteq> 0"
    using that assms(2) by (simp add: exact_fpu_def)
  have "0 < 1 - ?E / 2 ^ 32"
    using assms(4) by simp
  then have large: "fmul exact_fpu (Num (- (2 ^ 32)))
                 (math_Log10 exact_fpu (fsub exact_fpu (Num 1) (fdiv exact_fpu (Num ?E) (Num (2 ^ 32))))) =
               Num (- (2 ^ 32) * log 10 (1 - ?E / 2 ^ 32))"
    by (simp add: exact_fpu_def fsub_def)
  have thrL: "rnd exact_fpu ((1 / 30) * 2 ^ 32) = Num ((1 / 30) * 2 ^ 32)"
    by (simp add: exact_fpu_def)
  show ?thesis
    unfolding Count_claimed_def Count_spec_def Let_def S E thr thrL
    using small large by (simp del: fmul.simps fdiv.simps)
qed

text \<open>
  On the unit without rounding the second translation computes what the first computes,
  as long as the raw estimate is below \<open>2^32\<close>, where the large-range logarithm has a
  positive argument.
\<close>

lemma Count_float64_exact:
  assumes v: "valid pf s p" and c: "counter_at s p = Some c" and r: "Count s p = Inr e"
    and lt: "alpha c * (real (unat (m c)))\<^sup>2 *
               (1 / (\<Sum>reg\<leftarrow>registers s p. 2 powr (- real (unat reg)))) < 2 ^ 32"
  shows "Count_float64 exact_fpu s p = Inr (Num e)"
proof -
  note sh = valid_shape [OF v c]
  have ne: "registers s p \<noteq> []"
    using sh(1,3) by auto
  have "Count_float64 exact_fpu s p =
      Inr (Count_claimed exact_fpu (alpha c) (unat (m c)) (registers s p))"
    by (rule Count_float64_eq [OF exact_fpu_ok c sh])
  also have "Count_claimed exact_fpu (alpha c) (unat (m c)) (registers s p) =
      Num (Count_spec (alpha c) (unat (m c)) (registers s p))"
    using sh(1,4) by (intro Count_claimed_exact [OF ne _ _ lt]) simp_all
  finally show ?thesis
    using Count_valid [OF v c] r by simp
qed

text \<open>
  C2. On a platform whose rounding is IEEE 754 round-to-nearest and whose \<^verbatim>\<open>math.Pow\<close>
  gives powers of two exactly, and for a sketch with 16 to \<open>2^32 - 1\<close> registers, all
  allocated, and an \<open>alpha\<close> between 0.67 and 1 (every sketch that satisfies the invariant
  of construction is one, \<open>valid_shape\<close>), \<^verbatim>\<open>Count\<close> in \<^verbatim>\<open>float64\<close> arithmetic returns this: with
  \<open>E = alpha * m\<^sup>2 * (1 / \<Sum> 2 ^ (- register))\<close> and \<open>V\<close> the number of zero registers,
  \<open>m * log10 (m / V)\<close> if \<open>E < (2/5) * m\<close> and \<open>V \<noteq> 0\<close>; otherwise
  \<open>- 2^32 * log10 (1 - E / 2^32)\<close> if \<open>E > (1/30) * 2^32\<close>, NaN or an infinity included;
  otherwise \<open>E\<close>. And \<^verbatim>\<open>correction\<close>, on every \<^verbatim>\<open>float64\<close> it is given, applies the small-range
  formula below \<open>(2/5) * m\<close> when \<open>V \<noteq> 0\<close>, else the large-range formula above
  \<open>(1/30) * 2^32\<close>, else nothing; both formulas call \<^verbatim>\<open>math.Log10\<close>.
\<close>

theorem Count_float64_formula:
  assumes "ieee_rounding (rnd fp)" and "pow2_exact fp"
    and "counter_at s p = Some c"
    and "16 \<le> unat (m c)" and "unat (m c) < 2 ^ 32"
    and "length (registers s p) = unat (m c)"
    and "67 / 100 \<le> alpha c" and "alpha c \<le> 1"
  shows "Count_float64 fp s p =
           Inr (Count_claimed fp (alpha c) (unat (m c)) (registers s p)) \<and>
         (\<forall>e. correction_float64 fp s c e =
            (let fm = Num (real (unat (m c)));
                 V = length (filter (\<lambda>reg. reg = 0) (registers s p))
             in if flt e (fmul fp (rnd fp (2 / 5)) fm)
                then (if V \<noteq> 0
                      then fmul fp fm (math_Log10 fp (fdiv fp fm (Num (real V))))
                      else e)
                else if flt (rnd fp ((1 / 30) * 2 ^ 32)) e
                then fmul fp (Num (- (2 ^ 32)))
                       (math_Log10 fp (fsub fp (Num 1) (fdiv fp e (Num (2 ^ 32)))))
                else e))"
proof -
  have r: "registers s p = slice_at s (regs c)"
    by (simp add: registers_def assms(3))
  have len: "length (slice_at s (regs c)) = unat (m c)"
    using assms(6) by (simp add: r)
  show ?thesis
    using Count_float64_eq [OF assms] correction_float64_eq [OF assms(1,5) len]
    by (simp add: r)
qed


theorem Count_float64_formula_witness:
  "ieee_rounding (rnd nearest_fpu) \<and> pow2_exact nearest_fpu \<and>
   counter_at demo 1 = Some (demo_counter 2) \<and>
   16 \<le> unat (m (demo_counter 2)) \<and> unat (m (demo_counter 2)) < 2 ^ 32 \<and>
   length (registers demo 1) = unat (m (demo_counter 2)) \<and>
   67 / 100 \<le> alpha (demo_counter 2) \<and> alpha (demo_counter 2) \<le> 1 \<and>
   Count_float64 nearest_fpu demo 1 = Inr (Num (832528082189279 / 70368744177664)) \<and>
   correction_float64 nearest_fpu demo (demo_counter 2) (Num 1) =
     fmul nearest_fpu (Num 16)
       (math_Log10 nearest_fpu (Num (2573485501354569 / 2251799813685248))) \<and>
   correction_float64 nearest_fpu demo (demo_counter 2) (Num 100) = Num 100 \<and>
   correction_float64 nearest_fpu demo (demo_counter 2) (Num (2 ^ 31)) =
     fmul nearest_fpu (Num (- (2 ^ 32))) (math_Log10 nearest_fpu (Num (1 / 2))) \<and>
   correction_float64 nearest_fpu demo (demo_counter 2) (Num (2 ^ 32)) = PosInf \<and>
   correction_float64 nearest_fpu demo (demo_counter 2) (Num (2 ^ 33)) = NaN \<and>
   correction_float64 nearest_fpu demo (demo_counter 2) NaN = NaN \<and>
   ieee_rounding (rnd exact_fpu) \<and> pow2_exact exact_fpu \<and>
   Count_float64 exact_fpu demo 1 = Inr (Num (344576 / 29125)) \<and>
   correction_float64 exact_fpu demo (demo_counter 2) (Num 1) = Num (16 * log 10 (8 / 7)) \<and>
   correction_float64 exact_fpu demo (demo_counter 2) (Num (2 ^ 31)) =
     Num (- (2 ^ 32) * log 10 (1 / 2))"
proof -
  note sh = valid_shape [OF demo_valid(2) demo_counter_at(2)]
  note f = Count_float64_formula [OF nearest_fpu_ok demo_counter_at(2) sh]
  note g = Count_float64_formula [OF exact_fpu_ok demo_counter_at(2) sh]
  note k = f [THEN conjunct2, rule_format]
  note l = g [THEN conjunct2, rule_format]
  note t = round_float64_table round_float64_0 round_float64_minus
  have V: "length (filter (\<lambda>reg. reg = 0) (registers demo (Suc 0))) = 14"
    by (simp add: demo_registers)
  have n: "unat (m (demo_counter 2)) = 16" "alpha (demo_counter 2) = 673 / 1000"
    by (simp_all add: demo_counter_def)
  have c: "Count_claimed nearest_fpu (673 / 1000) 16 (registers demo (Suc 0)) =
      Num (832528082189279 / 70368744177664)"
    by (simp add: Count_claimed_def demo_registers nearest_fpu_def powr_minus_divide Let_def t)
  have d: "Count_claimed exact_fpu (673 / 1000) 16 (registers demo (Suc 0)) = Num (344576 / 29125)"
    by (simp add: Count_claimed_def demo_registers exact_fpu_def powr_minus_divide Let_def)
  have k1: "correction_float64 nearest_fpu demo (demo_counter 2) (Num 1) =
      fmul nearest_fpu (Num 16)
        (math_Log10 nearest_fpu (Num (2573485501354569 / 2251799813685248)))"
    using k [of "Num 1"] by (simp add: V n Let_def nearest_fpu_def fsub_def t)
  have k2: "correction_float64 nearest_fpu demo (demo_counter 2) (Num 100) = Num 100"
    using k [of "Num 100"] by (simp add: V n Let_def nearest_fpu_def fsub_def t)
  have k3: "correction_float64 nearest_fpu demo (demo_counter 2) (Num (2 ^ 31)) =
      fmul nearest_fpu (Num (- (2 ^ 32))) (math_Log10 nearest_fpu (Num (1 / 2)))"
    using k [of "Num (2 ^ 31)"] by (simp add: V n Let_def nearest_fpu_def fsub_def t)
  have k4: "correction_float64 nearest_fpu demo (demo_counter 2) (Num (2 ^ 32)) = PosInf"
    using k [of "Num (2 ^ 32)"] by (simp add: V n Let_def nearest_fpu_def fsub_def t)
  have k5: "correction_float64 nearest_fpu demo (demo_counter 2) (Num (2 ^ 33)) = NaN"
    using k [of "Num (2 ^ 33)"] by (simp add: V n Let_def nearest_fpu_def fsub_def t)
  have k6: "correction_float64 nearest_fpu demo (demo_counter 2) NaN = NaN"
    using k [of NaN] by (simp add: V n Let_def nearest_fpu_def fsub_def t)
  have l1: "correction_float64 exact_fpu demo (demo_counter 2) (Num 1) = Num (16 * log 10 (8 / 7))"
    using l [of "Num 1"] by (simp add: V n Let_def exact_fpu_def fsub_def)
  have l3: "correction_float64 exact_fpu demo (demo_counter 2) (Num (2 ^ 31)) =
      Num (- (2 ^ 32) * log 10 (1 / 2))"
    using l [of "Num (2 ^ 31)"] by (simp add: V n Let_def exact_fpu_def fsub_def)
  show ?thesis
    using nearest_fpu_ok exact_fpu_ok sh demo_counter_at(2) f [THEN conjunct1] g [THEN conjunct1]
      k1 k2 k3 k4 k5 k6 l1 l3
    by (simp add: n c d)
qed

lemma saturated_eq:
  "saturated = \<lparr>counters = [demo_counter 0],
                 slices = [replicate 16 29, [15, 0, 0, 0, 8, 0, 0, 0]]\<rparr>"
  by (simp add: saturated_def saturating_calls_def step_def NewCounter_test_16 empty_store_def
      Add_def counter_at_def slice_at_def slice_put_def slice_get_def slice_set_def
      sha_256_test Uint64_test index_of_def rank_of_def numZeroes_def numZeroes_loop.simps
      replicate_16 replicate_8 demo_counter_def Let_def)

lemma saturated_valid: "valid test_platform saturated 0"
  by (simp add: valid_def saturated_eq counter_at_def slice_at_def demo_counter_def
      Log2_uint64_16 alpha_fn_def)

text \<open>
  A sketch of 16 registers that are all at 29 (one element per register, each hash value
  with 28 leading zeros) has the raw estimate \<open>0.673 * 2^33\<close>, above \<open>2^32\<close>: the
  large-range correction takes the logarithm of a negative number and \<^verbatim>\<open>Count\<close> returns NaN.
\<close>

lemma Count_float64_saturated: "Count_float64 nearest_fpu saturated 0 = Inr NaN"
proof -
  have c: "counter_at saturated 0 = Some (demo_counter 0)"
    by (simp add: saturated_eq counter_at_def)
  have r: "registers saturated 0 = replicate 16 29"
    by (simp add: registers_def c) (simp add: saturated_eq slice_at_def demo_counter_def)
  have "Count_float64 nearest_fpu saturated 0 =
      Inr (Count_claimed nearest_fpu (alpha (demo_counter 0)) (unat (m (demo_counter 0)))
             (registers saturated 0))"
    by (rule Count_float64_eq [OF nearest_fpu_ok c valid_shape [OF saturated_valid c]])
  also have "Count_claimed nearest_fpu (alpha (demo_counter 0)) (unat (m (demo_counter 0)))
             (registers saturated 0) = NaN"
    by (simp add: r Count_claimed_def demo_counter_def replicate_16 nearest_fpu_def
        powr_minus_divide fsub_def Let_def round_float64_table round_float64_0 round_float64_minus)
  finally show ?thesis .
qed

subsection \<open>Every sketch a client can obtain satisfies the invariant\<close>

lemma wf_store_empty: "wf_store pf empty_store"
  by (simp add: wf_store_def separate_def empty_store_def)

lemma valid_allocated:
  assumes "valid pf s p"
  shows "p < length (counters s)"
    and "regs (counters s ! p) < length (slices s)"
    and "hbuf (counters s ! p) < length (slices s)"
  using assms by (simp_all add: valid_def counter_at_def split: if_splits)

lemma wf_store_append:
  assumes wf: "wf_store pf s"
    and s': "s' = s\<lparr>slices := slices s @ [xs, ys], counters := counters s @ [c]\<rparr>"
    and v: "valid pf s' (length (counters s))"
    and c: "regs c = length (slices s)" "hbuf c = Suc (length (slices s))"
  shows "wf_store pf s'"
proof -
  have ex: "extends s s'"
    unfolding s' by (rule extends_append)
  have len: "length (counters s') = Suc (length (counters s))"
    by (simp add: s')
  have old: "counters s' ! p = counters s ! p" if "p < length (counters s)" for p
    using that by (simp add: s' nth_append)
  have new: "counters s' ! length (counters s) = c"
    by (simp add: s')
  have va: "valid pf s' p" if "p < length (counters s')" for p
  proof (cases "p < length (counters s)")
    case True
    with wf have "valid pf s p" by (simp add: wf_store_def)
    then show ?thesis by (rule extends_valid(1) [OF ex])
  next
    case False
    with that len have "p = length (counters s)" by simp
    with v show ?thesis by simp
  qed
  have lt: "regs (counters s ! p) < length (slices s) \<and> hbuf (counters s ! p) < length (slices s)"
    if "p < length (counters s)" for p
  proof -
    from wf that have "valid pf s p" by (simp add: wf_store_def)
    from valid_allocated(2,3) [OF this] show ?thesis by simp
  qed
  have "separate s'"
    unfolding separate_def
  proof (intro allI impI)
    fix p q
    assume p: "p < length (counters s')" and q: "q < length (counters s')" and pq: "p \<noteq> q"
    show "regs (counters s' ! p) \<noteq> regs (counters s' ! q) \<and>
          regs (counters s' ! p) \<noteq> hbuf (counters s' ! q) \<and>
          hbuf (counters s' ! p) \<noteq> hbuf (counters s' ! q)"
    proof (cases "p < length (counters s)")
      case pT: True
      show ?thesis
      proof (cases "q < length (counters s)")
        case True
        with pT pq wf show ?thesis
          by (simp add: old wf_store_def separate_def)
      next
        case False
        with q len have "q = length (counters s)" by simp
        with lt [OF pT] c show ?thesis
          by (simp add: old [OF pT] new)
      qed
    next
      case False
      with p len have pe: "p = length (counters s)" by simp
      with q pq len have qT: "q < length (counters s)" by simp
      with lt [OF qT] c pe show ?thesis
        by (simp add: old [OF qT] new)
    qed
  qed
  with va show ?thesis
    by (simp add: wf_store_def)
qed

lemma NewCounter_wf_store:
  assumes "wf_store pf s" and "NewCounter pf s n = Inr (p, s')"
  shows "wf_store pf s'"
proof -
  from assms(2) have n: "\<not> n < 16"
    by (auto simp add: NewCounter_def minNumRegisters_def split: if_splits)
  let ?c = "\<lparr>regs = length (slices s), m = ucast n, b = Log2_uint64 n,
              alpha = alpha_step (unat n), hash = sha_256 (Sum256 pf),
              hbuf = Suc (length (slices s))\<rparr>"
  from assms(2) have p: "p = length (counters s)"
    and s': "s' = s\<lparr>slices := slices s @ [replicate (unat n) 0, replicate 8 0],
                     counters := counters s @ [?c]\<rparr>"
    by (simp_all add: NewCounter_ok [OF n])
  from NewCounter_valid(1) [OF assms(2)] have "valid pf s' (length (counters s))"
    by (simp add: p)
  with assms(1) s' show ?thesis
    by (rule wf_store_append) simp_all
qed

lemma Merge_wf_store:
  assumes wf: "wf_store pf s" and mg: "Merge pf s p q = Inr (r, s')"
  shows "wf_store pf s'"
proof -
  from mg obtain c d where c: "counter_at s p = Some c" and d: "counter_at s q = Some d"
    by (auto simp add: Merge_def split: option.splits)
  from c d wf have vp: "valid pf s p" and vq: "valid pf s q"
    by (simp_all add: wf_store_def counter_at_def split: if_splits)
  have mm: "m c = m d"
  proof (rule ccontr)
    assume "m c \<noteq> m d"
    from Merge_mismatch [OF c d this] mg show False by simp
  qed
  then have cmp: "compatible s p q"
    by (simp add: compatible_def c d)
  let ?new = "\<lparr>regs = length (slices s), m = m c, b = b c, alpha = alpha c, hash = hash c,
                hbuf = Suc (length (slices s))\<rparr>"
  let ?regs = "map2 max (slice_at s (regs c)) (slice_at s (regs d))"
  from mg have r: "r = length (counters s)"
    and s': "s' = s\<lparr>slices := slices s @ [?regs, replicate 8 0],
                     counters := counters s @ [?new]\<rparr>"
    by (simp_all add: Merge_valid [OF vp vq c d mm [symmetric]])
  from Merge_ok [OF vp vq cmp] mg have "valid pf s' (length (counters s))"
    by (auto simp add: r)
  with wf s' show ?thesis
    by (rule wf_store_append) simp_all
qed

lemma Add_wf_store:
  assumes wf: "wf_store pf s" and add: "Add pf s p inp = Inr s'"
  shows "wf_store pf s'"
proof -
  from add obtain c where c: "counter_at s p = Some c"
    by (auto simp add: Add_def split: option.splits)
  then have pl: "p < length (counters s)" and cp: "counters s ! p = c"
    by (simp_all add: counter_at_def split: if_splits)
  from wf pl have vp: "valid pf s p"
    by (simp add: wf_store_def)
  note f = valid_fields [OF vp c]
  define dst where "dst = map (\<lambda>n. Sum256 pf inp ! n) [0..<8]"
  define rs where "rs = (slice_at s (regs c))
      [unat (index_of c (Uint64 pf dst)) :=
         max (slice_at s (regs c) ! unat (index_of c (Uint64 pf dst))) (rank_of (Uint64 pf dst))]"
  from add have s': "s' = slice_put (slice_put s (hbuf c) dst) (regs c) rs"
    by (simp add: Add_valid [OF vp c] Let_def dst_def rs_def)
  have cs: "counters s' = counters s"
    by (simp add: s')
  have va: "valid pf s' q" if q: "q < length (counters s)" for q
  proof (cases "q = p")
    case True
    with Add_preserves_valid(1) [OF vp add] show ?thesis by simp
  next
    case False
    from wf q have vq: "valid pf s q"
      by (simp add: wf_store_def)
    let ?d = "counters s ! q"
    have d: "counter_at s q = Some ?d"
      using q by (simp add: counter_at_def)
    from wf q pl False have ne: "regs ?d \<noteq> regs c" "regs ?d \<noteq> hbuf c"
        "hbuf ?d \<noteq> regs c" "hbuf ?d \<noteq> hbuf c"
      unfolding wf_store_def separate_def cp [symmetric] by metis+
    have "slice_at s' (regs ?d) = slice_at s (regs ?d)"
      "slice_at s' (hbuf ?d) = slice_at s (hbuf ?d)"
      using ne by (simp_all add: s' slice_at_slice_put_other)
    moreover have "counter_at s' q = Some ?d"
      using d by (simp add: s')
    moreover have "length (slices s') = length (slices s)"
      by (simp add: s')
    ultimately show ?thesis
      using vq by (simp add: valid_def d)
  qed
  have "separate s'"
    using wf by (simp add: wf_store_def separate_def cs)
  with va show ?thesis
    by (simp add: wf_store_def cs)
qed

lemma step_wf_store:
  assumes "wf_store pf s" and "step pf s k = Inr s'"
  shows "wf_store pf s'"
proof (cases k)
  case (CallNew n)
  with assms NewCounter_wf_store [OF assms(1), of n] show ?thesis
    by (auto simp add: step_def recover_def split: sum.splits if_splits)
next
  case (CallAdd p x)
  with assms Add_wf_store [OF assms(1), of p x s'] show ?thesis
    by (simp add: step_def)
next
  case (CallCount p)
  with assms show ?thesis
    by (auto simp add: step_def split: sum.splits)
next
  case (CallMerge p q)
  with assms Merge_wf_store [OF assms(1), of p q] show ?thesis
    by (auto simp add: step_def recover_def split: sum.splits if_splits)
next
  case (CallError p)
  with assms show ?thesis
    by (auto simp add: step_def split: sum.splits)
qed

lemma run_wf_store: "wf_store pf s \<Longrightarrow> run pf s ks = Inr s' \<Longrightarrow> wf_store pf s'"
proof (induction ks arbitrary: s)
  case Nil
  then show ?case by simp
next
  case (Cons k ks)
  from Cons.prems(2) obtain s1 where st: "step pf s k = Inr s1" and rest: "run pf s1 ks = Inr s'"
    by (auto split: sum.splits)
  from Cons.IH [OF step_wf_store [OF Cons.prems(1) st] rest] show ?case .
qed

lemma reachable_valid:
  assumes "run pf empty_store ks = Inr s" and "counter_at s p = Some c"
  shows "valid pf s p"
proof -
  from run_wf_store [OF wf_store_empty assms(1)] have "wf_store pf s" .
  moreover from assms(2) have "p < length (counters s)"
    by (simp add: counter_at_def split: if_splits)
  ultimately show ?thesis
    by (simp add: wf_store_def)
qed

end
